theory Spec2Isabelle
  imports Main
begin

section \<open>The virtual filesystem of \<^verbatim>\<open>main.cpp\<close>\<close>

text \<open>
  The class \<^verbatim>\<open>FileSystem\<close> keeps a tree of heap-allocated \<^verbatim>\<open>Item\<close> objects that
  point at each other (\<^verbatim>\<open>children\<close> downwards, \<^verbatim>\<open>parent\<close> upwards), a sector bitmap
  and a disk of sector payloads. The embedding keeps the pointers: an \<^verbatim>\<open>Item *\<close> is an
  address (an index into the store \<open>heap\<close>), \<^verbatim>\<open>nullptr\<close> is \<open>None\<close>, \<^verbatim>\<open>new Item()\<close> appends a
  cell to the store and \<^verbatim>\<open>delete\<close> empties the cell. Reading through a pointer whose
  cell is empty is undefined behaviour in C++; the model reports it as \<open>MemoryFault\<close>.

  A C++ exception is a value \<open>Inl e\<close>; every function that can throw after it has
  changed the state returns the state it left behind together with the result.
  Console output is not modelled.

  Sector ids are \<^verbatim>\<open>int\<close> values that the program only compares with the capacity and
  increments below it; the capacity is an \<^verbatim>\<open>int\<close> itself, so these values never leave
  the range of \<^verbatim>\<open>int\<close> and are integers of the model. The positions and lengths that the
  program computes from \<^verbatim>\<open>data.length()\<close> and from \<^verbatim>\<open>find_last_of\<close> do leave it for long
  strings: they are truncated and converted as the program does it, see below.
\<close>

subsection \<open>Data\<close>

text \<open>One constructor per kind of exception message of the program.\<close>

datatype error =
    DiskFull              \<comment> \<open>"No free sectors available", "Disk is full"\<close>
  | InvalidSector int     \<comment> \<open>\<^verbatim>\<open>out_of_range\<close> of \<^verbatim>\<open>freeSector\<close>\<close>
  | NotFound              \<comment> \<open>"... not found"\<close>
  | NotADirectory         \<comment> \<open>"Not a directory"\<close>
  | AlreadyExists         \<comment> \<open>"... already exists"\<close>
  | NotEmpty              \<comment> \<open>"Directory is not empty"\<close>
  | MissingPath           \<comment> \<open>"mkdir: missing path", "Invalid path"\<close>
  | InvalidNameInPath string  \<comment> \<open>"Invalid directory name in path: " and the segment\<close>
  | InvalidName string    \<comment> \<open>"Invalid directory name: ", "Invalid file name: " and the name\<close>
  | NameConflict string   \<comment> \<open>"Cannot create directory: a file with this name exists"\<close>
  | InvalidOperation      \<comment> \<open>"Cannot move a folder into itself"\<close>
  | CannotOpen            \<comment> \<open>"Cannot open real file"\<close>
  | OutOfRange            \<comment> \<open>\<^verbatim>\<open>out_of_range\<close> of \<^verbatim>\<open>substr\<close>\<close>
  | MemoryFault           \<comment> \<open>not an exception: undefined behaviour of the C++ program\<close>

type_synonym addr = nat

record Item =
  isFolder :: bool
  name :: string
  content :: string
  sectors :: "int list"
  children :: "addr list"
  parent :: "addr option"

record FileSystem =
  disk :: "string list"
  sectorMap :: "bool list"
  root :: addr
  currentDir :: addr
  totalSectors :: int
  heap :: "Item option list"

definition SECTOR_SIZE :: nat where
  "SECTOR_SIZE = 64"

text \<open>\<^verbatim>\<open>new Item()\<close> value-initialises the object.\<close>

definition new_Item :: Item where
  "new_Item = \<lparr>isFolder = False, name = [], content = [], sectors = [],
               children = [], parent = None\<rparr>"

definition item :: "FileSystem \<Rightarrow> addr \<Rightarrow> Item option" where
  "item s a = (if a < length (heap s) then heap s ! a else None)"

definition alloc :: "Item \<Rightarrow> FileSystem \<Rightarrow> addr \<times> FileSystem" where
  "alloc x s = (length (heap s), s\<lparr>heap := heap s @ [Some x]\<rparr>)"

definition store :: "addr \<Rightarrow> Item \<Rightarrow> FileSystem \<Rightarrow> FileSystem" where
  "store a x s = s\<lparr>heap := (heap s)[a := Some x]\<rparr>"

definition delete :: "addr \<Rightarrow> FileSystem \<Rightarrow> FileSystem" where
  "delete a s = s\<lparr>heap := (heap s)[a := None]\<rparr>"

subsection \<open>Machine integers\<close>

text \<open>
  \<^verbatim>\<open>int\<close> has 32 bits and \<^verbatim>\<open>size_t\<close> has 64. \<open>to_int i\<close> is the \<^verbatim>\<open>int\<close> with the low 32 bits
  of \<open>i\<close>: the value of the cast \<^verbatim>\<open>(int)data.length()\<close>, of the initialisation of an \<^verbatim>\<open>int\<close>
  with a \<^verbatim>\<open>size_t\<close>, and of \<^verbatim>\<open>int\<close> arithmetic, which wraps around. \<open>to_size_t i\<close> is the
  \<^verbatim>\<open>size_t\<close> that an \<^verbatim>\<open>int\<close> is converted to when it is compared with a \<^verbatim>\<open>size_t\<close> or passed
  to \<^verbatim>\<open>substr\<close>: a negative \<^verbatim>\<open>int\<close> becomes a value above \<open>2 ^ 63\<close>. Values of type \<^verbatim>\<open>size_t\<close>
  are integers of the model, between 0 and \<open>2 ^ 64\<close>.
\<close>

definition to_int :: "int \<Rightarrow> int" where
  "to_int i = (i + 2 ^ 31) mod 2 ^ 32 - 2 ^ 31"

definition to_size_t :: "int \<Rightarrow> int" where
  "to_size_t i = i mod 2 ^ 64"

text \<open>\<^verbatim>\<open>string::npos\<close>\<close>

definition npos :: int where
  "npos = 2 ^ 64 - 1"

text \<open>\<^verbatim>\<open>str.substr(pos, n)\<close> for \<^verbatim>\<open>pos <= str.size()\<close>; beyond the size it throws
  \<^verbatim>\<open>out_of_range\<close>, which the callers below check before they take the substring.\<close>

definition substr :: "string \<Rightarrow> int \<Rightarrow> int \<Rightarrow> string" where
  "substr str pos n = take (nat n) (drop (nat pos) str)"

subsection \<open>Sector allocator\<close>

function allocateSector_loop :: "nat \<Rightarrow> FileSystem \<Rightarrow> (error + int) \<times> FileSystem" where
  "allocateSector_loop i s =
     (if i < length (sectorMap s) then
        (if \<not> sectorMap s ! i
         then (Inr (int i), s\<lparr>sectorMap := (sectorMap s)[i := True]\<rparr>)
         else allocateSector_loop (Suc i) s)
      else (Inl DiskFull, s))"
  by pat_completeness auto
termination
  by (relation "measure (\<lambda>(i, s). length (sectorMap s) - i)") auto

declare allocateSector_loop.simps [simp del]

definition allocateSector :: "FileSystem \<Rightarrow> (error + int) \<times> FileSystem" where
  "allocateSector s = allocateSector_loop 0 s"

definition freeSector :: "int \<Rightarrow> FileSystem \<Rightarrow> (error + unit) \<times> FileSystem" where
  "freeSector sector s =
     (if sector < 0 \<or> int (length (sectorMap s)) \<le> sector
      then (Inl (InvalidSector sector), s)
      else (Inr (), s\<lparr>sectorMap := (sectorMap s)[nat sector := False]\<rparr>))"

text \<open>What a call of \<^verbatim>\<open>allocateSector\<close> returns. The loops of the content writer below end
  because every successful call leaves one free sector less.\<close>

lemma allocateSector_loop_Inr:
  "allocateSector_loop i s = (Inr k, s') \<Longrightarrow>
     0 \<le> k \<and> i \<le> nat k \<and> nat k < length (sectorMap s) \<and> \<not> sectorMap s ! nat k \<and>
     (\<forall>j. i \<le> j \<and> j < nat k \<longrightarrow> sectorMap s ! j) \<and>
     s' = s\<lparr>sectorMap := (sectorMap s)[nat k := True]\<rparr>"
proof (induction i s rule: allocateSector_loop.induct)
  case (1 i s)
  show ?case
  proof (cases "i < length (sectorMap s) \<and> sectorMap s ! i")
    case True
    then have "allocateSector_loop (Suc i) s = (Inr k, s')"
      using "1.prems" by (simp add: allocateSector_loop.simps [of i])
    with True "1.IH" have IH: "0 \<le> k \<and> Suc i \<le> nat k \<and> nat k < length (sectorMap s) \<and> \<not> sectorMap s ! nat k \<and>
     (\<forall>j. Suc i \<le> j \<and> j < nat k \<longrightarrow> sectorMap s ! j) \<and>
     s' = s\<lparr>sectorMap := (sectorMap s)[nat k := True]\<rparr>" by simp
    have "\<And>j. i \<le> j \<Longrightarrow> j < nat k \<Longrightarrow> sectorMap s ! j"
    proof -
      fix j assume "i \<le> j" "j < nat k"
      then show "sectorMap s ! j" using IH True by (cases "j = i") auto
    qed
    with IH show ?thesis by auto
  next
    case False
    then show ?thesis using "1.prems"
      by (auto simp: allocateSector_loop.simps [of i] split: if_splits)
  qed
qed

lemma allocateSector_loop_Inl:
  "allocateSector_loop i s = (Inl e, s') \<Longrightarrow>
     e = DiskFull \<and> s' = s \<and> (\<forall>j. i \<le> j \<and> j < length (sectorMap s) \<longrightarrow> sectorMap s ! j)"
proof (induction i s rule: allocateSector_loop.induct)
  case (1 i s)
  show ?case
  proof (cases "i < length (sectorMap s) \<and> sectorMap s ! i")
    case True
    then have "allocateSector_loop (Suc i) s = (Inl e, s')"
      using "1.prems" by (simp add: allocateSector_loop.simps [of i])
    with True "1.IH" have IH: "e = DiskFull \<and> s' = s \<and> (\<forall>j. Suc i \<le> j \<and> j < length (sectorMap s) \<longrightarrow> sectorMap s ! j)" by simp
    have "\<And>j. i \<le> j \<Longrightarrow> j < length (sectorMap s) \<Longrightarrow> sectorMap s ! j"
    proof -
      fix j assume "i \<le> j" "j < length (sectorMap s)"
      then show "sectorMap s ! j" using IH True by (cases "j = i") auto
    qed
    with IH show ?thesis by auto
  next
    case False
    then show ?thesis using "1.prems"
      by (auto simp: allocateSector_loop.simps [of i] split: if_splits)
  qed
qed

lemma allocateSector_cases:
  "(\<exists>k. allocateSector s = (Inr k, s\<lparr>sectorMap := (sectorMap s)[nat k := True]\<rparr>) \<and> 0 \<le> k \<and>
        nat k < length (sectorMap s) \<and> \<not> sectorMap s ! nat k \<and> (\<forall>j < nat k. sectorMap s ! j))
   \<or> (allocateSector s = (Inl DiskFull, s) \<and> (\<forall>j < length (sectorMap s). sectorMap s ! j))"
proof (cases "allocateSector s")
  case (Pair r s')
  show ?thesis
  proof (cases r)
    case (Inl e)
    with Pair show ?thesis
      using allocateSector_loop_Inl [of 0 s e s'] by (simp add: allocateSector_def)
  next
    case (Inr k)
    with Pair show ?thesis
      using allocateSector_loop_Inr [of 0 s k s'] by (simp add: allocateSector_def)
  qed
qed

lemma filter_update_True:
  "i < length xs \<Longrightarrow> \<not> xs ! i \<Longrightarrow>
     length (filter (\<lambda>b. \<not> b) (xs[i := True])) < length (filter (\<lambda>b. \<not> b) xs)"
proof (induction xs arbitrary: i)
  case Nil
  then show ?case by simp
next
  case (Cons x xs)
  show ?case
  proof (cases i)
    case 0
    with Cons.prems show ?thesis by simp
  next
    case (Suc j)
    with Cons.prems Cons.IH [of j] show ?thesis by simp
  qed
qed

lemma allocateSector_free_less:
  assumes "(Inr sector, s1) = allocateSector s"
  shows "length (filter (\<lambda>b. \<not> b) (sectorMap s1)) < length (filter (\<lambda>b. \<not> b) (sectorMap s))"
proof -
  from assms have "nat sector < length (sectorMap s)" "\<not> sectorMap s ! nat sector"
    "s1 = s\<lparr>sectorMap := (sectorMap s)[nat sector := True]\<rparr>"
    using allocateSector_loop_Inr [of 0 s sector s1] by (simp_all add: allocateSector_def eq_commute)
  then show ?thesis using filter_update_True [of "nat sector" "sectorMap s"] by simp
qed

subsection \<open>Content writer\<close>

text \<open>The first loop of \<^verbatim>\<open>saveToDisk\<close> (and of \<^verbatim>\<open>freeSectorsRecursive\<close>): every sector of
  the list is freed, in order; an exception of \<^verbatim>\<open>freeSector\<close> leaves the earlier ones freed.\<close>

fun freeSectors :: "int list \<Rightarrow> FileSystem \<Rightarrow> (error + unit) \<times> FileSystem" where
  "freeSectors [] s = (Inr (), s)"
| "freeSectors (sector # rest) s =
     (case freeSector sector s of
        (Inl e, s') \<Rightarrow> (Inl e, s')
      | (Inr _, s') \<Rightarrow> freeSectors rest s')"

text \<open>\<^verbatim>\<open>while (sector >= disk.size()) disk.push_back("")\<close>\<close>

function grow_disk :: "nat \<Rightarrow> string list \<Rightarrow> string list" where
  "grow_disk sector d = (if length d \<le> sector then grow_disk sector (d @ ['''']) else d)"
  by pat_completeness auto
termination
  by (relation "measure (\<lambda>(sector, d). Suc sector - length d)") auto

declare grow_disk.simps [simp del]

text \<open>\<^verbatim>\<open>int len = min(SECTOR_SIZE, (int)data.length() - pos)\<close>\<close>

definition chunk_len :: "string \<Rightarrow> int \<Rightarrow> int" where
  "chunk_len data pos = min (int SECTOR_SIZE) (to_int (to_int (int (length data)) - pos))"

text \<open>The \<^verbatim>\<open>while (pos < data.length())\<close> loop of \<^verbatim>\<open>saveToDisk\<close>. \<^verbatim>\<open>pos\<close> is an \<^verbatim>\<open>int\<close>: the
  loop test compares it as a \<^verbatim>\<open>size_t\<close>, and \<^verbatim>\<open>data.substr(pos, len)\<close> converts both
  arguments to \<^verbatim>\<open>size_t\<close> (the test has just established \<^verbatim>\<open>pos < data.length()\<close>, so \<^verbatim>\<open>substr\<close>
  does not throw). For contents of \<open>2 ^ 32\<close> bytes or more \<^verbatim>\<open>len\<close> becomes 0 and \<^verbatim>\<open>pos\<close> stops
  moving; the loop still ends, with \<open>DiskFull\<close>, because each round claims a free sector.\<close>

function saveToDisk_loop ::
  "addr \<Rightarrow> string \<Rightarrow> int \<Rightarrow> FileSystem \<Rightarrow> (error + unit) \<times> FileSystem" where
  "saveToDisk_loop file data pos s =
     (if to_size_t pos < int (length data) then
        (case allocateSector s of
           (Inl e, s1) \<Rightarrow> (Inl e, s1)
         | (Inr sector, s1) \<Rightarrow>
             (case item s1 file of
                None \<Rightarrow> (Inl MemoryFault, s1)
              | Some f \<Rightarrow>
                  saveToDisk_loop file data (to_int (pos + chunk_len data pos))
                    ((store file (f\<lparr>sectors := sectors f @ [sector]\<rparr>) s1)
                       \<lparr>disk := (grow_disk (nat sector) (disk s1))
                          [nat sector :=
                             substr data (to_size_t pos) (to_size_t (chunk_len data pos))]\<rparr>)))
      else (Inr (), s))"
  by pat_completeness auto
termination
  by (relation "measure (\<lambda>(file, data, pos, s). length (filter (\<lambda>b. \<not> b) (sectorMap s)))")
    (auto simp: store_def intro: allocateSector_free_less)

declare saveToDisk_loop.simps [simp del]

definition saveToDisk :: "addr option \<Rightarrow> FileSystem \<Rightarrow> (error + unit) \<times> FileSystem" where
  "saveToDisk file s =
     (case file of
        None \<Rightarrow> (Inr (), s)
      | Some a \<Rightarrow>
          (case item s a of
             None \<Rightarrow> (Inl MemoryFault, s)
           | Some f \<Rightarrow>
               if isFolder f then (Inr (), s)
               else (case freeSectors (sectors f) s of
                       (Inl e, s1) \<Rightarrow> (Inl e, s1)
                     | (Inr _, s1) \<Rightarrow>
                         saveToDisk_loop a (content f) 0 (store a (f\<lparr>sectors := []\<rparr>) s1))))"

subsection \<open>Path resolution\<close>

text \<open>\<^verbatim>\<open>getline(stream, part, delim)\<close> on the rest of the stream: it fails at the end of the
  input, and otherwise extracts the characters up to the delimiter and drops the delimiter.\<close>

definition getline :: "char \<Rightarrow> string \<Rightarrow> (string \<times> string) option" where
  "getline delim stream =
     (if stream = [] then None
      else Some (takeWhile (\<lambda>c. c \<noteq> delim) stream, drop 1 (dropWhile (\<lambda>c. c \<noteq> delim) stream)))"

function splitPath_loop :: "string \<Rightarrow> string list \<Rightarrow> string list" where
  "splitPath_loop stream parts =
     (case getline CHR ''/'' stream of
        None \<Rightarrow> parts
      | Some (part, rest) \<Rightarrow> splitPath_loop rest (if part \<noteq> [] then parts @ [part] else parts))"
  by pat_completeness auto
termination
proof (relation "measure (\<lambda>(stream, parts). length stream)")
  show "wf (measure (\<lambda>(stream, parts). length stream))" by simp
next
  fix stream :: string and parts :: "string list" and x2 x y
  assume "getline CHR ''/'' stream = Some x2" "(x, y) = x2"
  then have "stream \<noteq> []" and y: "y = drop 1 (dropWhile (\<lambda>c. c \<noteq> CHR ''/'') stream)"
    by (auto simp: getline_def split: if_splits)
  have "length (dropWhile (\<lambda>c. c \<noteq> CHR ''/'') stream) \<le> length stream"
    by (rule length_dropWhile_le)
  with \<open>stream \<noteq> []\<close> y have "length y < length stream"
    by (cases "dropWhile (\<lambda>c. c \<noteq> CHR ''/'') stream") auto
  then show "((y, if x \<noteq> [] then parts @ [x] else parts), stream, parts)
      \<in> measure (\<lambda>(stream, parts). length stream)"
    by simp
qed

declare splitPath_loop.simps [simp del]

definition splitPath :: "string \<Rightarrow> string list" where
  "splitPath path = splitPath_loop path []"

text \<open>\<^verbatim>\<open>for (Item *child : children) if (child->name == part) ...\<close>: the first child of
  that name, or \<^verbatim>\<open>nullptr\<close>.\<close>

fun find_child :: "FileSystem \<Rightarrow> addr list \<Rightarrow> string \<Rightarrow> error + addr option" where
  "find_child s [] part = Inr None"
| "find_child s (child # rest) part =
     (case item s child of
        None \<Rightarrow> Inl MemoryFault
      | Some c \<Rightarrow> if name c = part then Inr (Some child) else find_child s rest part)"

fun getItem_loop :: "FileSystem \<Rightarrow> addr \<Rightarrow> string list \<Rightarrow> error + addr option" where
  "getItem_loop s current [] = Inr (Some current)"
| "getItem_loop s current (part # parts) =
     (if part = ''.'' then getItem_loop s current parts
      else (case item s current of
              None \<Rightarrow> Inl MemoryFault
            | Some c \<Rightarrow>
                if part = ''..'' then
                  (case parent c of
                     Some p \<Rightarrow> getItem_loop s p parts
                   | None \<Rightarrow> getItem_loop s current parts)
                else
                  (case find_child s (children c) part of
                     Inl e \<Rightarrow> Inl e
                   | Inr None \<Rightarrow> Inr None
                   | Inr (Some child) \<Rightarrow> getItem_loop s child parts)))"

definition getItem :: "string \<Rightarrow> FileSystem \<Rightarrow> error + addr option" where
  "getItem path s =
     (if path = [] \<or> path = ''.'' then Inr (Some (currentDir s))
      else if path = ''/'' then Inr (Some (root s))
      else if path = ''..'' then
        (case item s (currentDir s) of
           None \<Rightarrow> Inl MemoryFault
         | Some c \<Rightarrow> Inr (Some (case parent c of Some p \<Rightarrow> p | None \<Rightarrow> currentDir s)))
      else getItem_loop s (if hd path = CHR ''/'' then root s else currentDir s) (splitPath path))"

subsection \<open>Recursive traversals\<close>

text \<open>The recursive member functions follow \<^verbatim>\<open>children\<close> pointers, and on a store with a
  pointer cycle the C++ recursion does not end. Each takes the recursion depth it may
  use as its first argument and returns \<open>None\<close> when that depth does not suffice.\<close>

fun collectAllFiles :: "nat \<Rightarrow> FileSystem \<Rightarrow> addr \<Rightarrow> addr list \<Rightarrow> (error + addr list) option"
  and collectAllFiles_children ::
    "nat \<Rightarrow> FileSystem \<Rightarrow> addr list \<Rightarrow> addr list \<Rightarrow> (error + addr list) option" where
  "collectAllFiles 0 s folder files = None"
| "collectAllFiles (Suc n) s folder files =
     (case item s folder of
        None \<Rightarrow> Some (Inl MemoryFault)
      | Some f \<Rightarrow> collectAllFiles_children n s (children f) files)"
| "collectAllFiles_children n s [] files = Some (Inr files)"
| "collectAllFiles_children n s (child # rest) files =
     (case item s child of
        None \<Rightarrow> Some (Inl MemoryFault)
      | Some c \<Rightarrow>
          if isFolder c then
            (case collectAllFiles n s child files of
               None \<Rightarrow> None
             | Some (Inl e) \<Rightarrow> Some (Inl e)
             | Some (Inr files') \<Rightarrow> collectAllFiles_children n s rest files')
          else collectAllFiles_children n s rest (files @ [child]))"

fun freeSectorsRecursive ::
    "nat \<Rightarrow> addr option \<Rightarrow> FileSystem \<Rightarrow> ((error + unit) \<times> FileSystem) option"
  and freeSectorsRecursive_children ::
    "nat \<Rightarrow> addr list \<Rightarrow> FileSystem \<Rightarrow> ((error + unit) \<times> FileSystem) option" where
  "freeSectorsRecursive 0 it s = None"
| "freeSectorsRecursive (Suc n) None s = Some (Inr (), s)"
| "freeSectorsRecursive (Suc n) (Some a) s =
     (case item s a of
        None \<Rightarrow> Some (Inl MemoryFault, s)
      | Some x \<Rightarrow>
          (case (if \<not> isFolder x then freeSectors (sectors x) s else (Inr (), s)) of
             (Inl e, s1) \<Rightarrow> Some (Inl e, s1)
           | (Inr _, s1) \<Rightarrow> freeSectorsRecursive_children n (children x) s1))"
| "freeSectorsRecursive_children n [] s = Some (Inr (), s)"
| "freeSectorsRecursive_children n (child # rest) s =
     (case freeSectorsRecursive n (Some child) s of
        None \<Rightarrow> None
      | Some (Inl e, s1) \<Rightarrow> Some (Inl e, s1)
      | Some (Inr _, s1) \<Rightarrow> freeSectorsRecursive_children n rest s1)"

fun deleteTree :: "nat \<Rightarrow> addr option \<Rightarrow> FileSystem \<Rightarrow> ((error + unit) \<times> FileSystem) option"
  and deleteTree_children ::
    "nat \<Rightarrow> addr list \<Rightarrow> FileSystem \<Rightarrow> ((error + unit) \<times> FileSystem) option" where
  "deleteTree 0 node s = None"
| "deleteTree (Suc n) None s = Some (Inr (), s)"
| "deleteTree (Suc n) (Some a) s =
     (case item s a of
        None \<Rightarrow> Some (Inl MemoryFault, s)
      | Some x \<Rightarrow>
          (case deleteTree_children n (children x) s of
             None \<Rightarrow> None
           | Some (Inl e, s1) \<Rightarrow> Some (Inl e, s1)
           | Some (Inr _, s1) \<Rightarrow>
               (case freeSectorsRecursive (Suc n) (Some a) s1 of
                  None \<Rightarrow> None
                | Some (Inl e, s2) \<Rightarrow> Some (Inl e, s2)
                | Some (Inr _, s2) \<Rightarrow> Some (Inr (), delete a s2))))"
| "deleteTree_children n [] s = Some (Inr (), s)"
| "deleteTree_children n (child # rest) s =
     (case deleteTree n (Some child) s of
        None \<Rightarrow> None
      | Some (Inl e, s1) \<Rightarrow> Some (Inl e, s1)
      | Some (Inr _, s1) \<Rightarrow> deleteTree_children n rest s1)"

fun copyItem :: "nat \<Rightarrow> addr \<Rightarrow> addr \<Rightarrow> FileSystem \<Rightarrow> ((error + addr) \<times> FileSystem) option"
  and copyItem_children ::
    "nat \<Rightarrow> addr list \<Rightarrow> addr \<Rightarrow> FileSystem \<Rightarrow> ((error + addr) \<times> FileSystem) option" where
  "copyItem 0 source newParent s = None"
| "copyItem (Suc n) source newParent s =
     (case item s source of
        None \<Rightarrow> Some (Inl MemoryFault, s)
      | Some src \<Rightarrow>
          (case alloc (new_Item\<lparr>isFolder := isFolder src, name := name src,
                                 content := content src, parent := Some newParent\<rparr>) s of
             (newItem, s1) \<Rightarrow>
               (case (if \<not> isFolder src then saveToDisk (Some newItem) s1 else (Inr (), s1)) of
                  (Inl e, s2) \<Rightarrow> Some (Inl e, s2)
                | (Inr _, s2) \<Rightarrow> copyItem_children n (children src) newItem s2)))"
| "copyItem_children n [] newItem s = Some (Inr newItem, s)"
| "copyItem_children n (child # rest) newItem s =
     (case copyItem n child newItem s of
        None \<Rightarrow> None
      | Some (Inl e, s1) \<Rightarrow> Some (Inl e, s1)
      | Some (Inr newChild, s1) \<Rightarrow>
          (case item s1 newItem of
             None \<Rightarrow> Some (Inl MemoryFault, s1)
           | Some x \<Rightarrow>
               copyItem_children n rest newItem
                 (store newItem (x\<lparr>children := children x @ [newChild]\<rparr>) s1)))"

subsection \<open>Constructor and public operations\<close>

text \<open>A public operation returns the exception it caught and reported, if any, and the
  state it left. \<^verbatim>\<open>touch\<close> has no handler: its exception reaches \<^verbatim>\<open>main\<close>, which has none
  either, so the process ends there.\<close>

definition FileSystem_new :: "int \<Rightarrow> FileSystem" where
  "FileSystem_new capacity =
     \<lparr>disk = replicate (nat capacity) [], sectorMap = replicate (nat capacity) False,
      root = 0, currentDir = 0, totalSectors = capacity,
      heap = [Some (new_Item\<lparr>isFolder := True, name := ''/''\<rparr>)]\<rparr>"

definition cd :: "string \<Rightarrow> FileSystem \<Rightarrow> error option \<times> FileSystem" where
  "cd path s =
     (case getItem path s of
        Inl e \<Rightarrow> (Some e, s)
      | Inr None \<Rightarrow> (Some NotFound, s)
      | Inr (Some target) \<Rightarrow>
          (case item s target of
             None \<Rightarrow> (Some MemoryFault, s)
           | Some t \<Rightarrow>
               if \<not> isFolder t then (Some NotADirectory, s)
               else (None, s\<lparr>currentDir := target\<rparr>)))"

definition isalnum :: "char \<Rightarrow> bool" where
  "isalnum c =
     ((48 \<le> (of_char c :: nat) \<and> (of_char c :: nat) \<le> 57) \<or>
      (65 \<le> (of_char c :: nat) \<and> (of_char c :: nat) \<le> 90) \<or>
      (97 \<le> (of_char c :: nat) \<and> (of_char c :: nat) \<le> 122))"

fun isValidName_loop :: "string \<Rightarrow> bool" where
  "isValidName_loop [] = True"
| "isValidName_loop (c # cs) =
     (if \<not> isalnum c \<and> c \<noteq> CHR ''_'' \<and> c \<noteq> CHR ''.'' then False else isValidName_loop cs)"

definition isValidName :: "string \<Rightarrow> bool" where
  "isValidName nm =
     (if nm = [] \<or> nm = ''.'' \<or> nm = ''..'' then False else isValidName_loop nm)"

text \<open>The search loop of \<^verbatim>\<open>mkdir\<close>: the first child of that name, which must be a folder.\<close>

fun mkdir_find :: "FileSystem \<Rightarrow> addr list \<Rightarrow> string \<Rightarrow> error + addr option" where
  "mkdir_find s [] part = Inr None"
| "mkdir_find s (child # rest) part =
     (case item s child of
        None \<Rightarrow> Inl MemoryFault
      | Some c \<Rightarrow>
          if name c = part then
            (if \<not> isFolder c then Inl (NameConflict part) else Inr (Some child))
          else mkdir_find s rest part)"

fun mkdir_loop :: "string list \<Rightarrow> addr \<Rightarrow> FileSystem \<Rightarrow> error option \<times> FileSystem" where
  "mkdir_loop [] current s = (None, s)"
| "mkdir_loop (part # parts) current s =
     (if part = [] \<or> part = ''.'' \<or> part = ''..'' then (Some (InvalidNameInPath part), s)
      else if \<not> isValidName part then (Some (InvalidName part), s)
      else (case item s current of
              None \<Rightarrow> (Some MemoryFault, s)
            | Some cur \<Rightarrow>
                (case mkdir_find s (children cur) part of
                   Inl e \<Rightarrow> (Some e, s)
                 | Inr (Some next) \<Rightarrow> mkdir_loop parts next s
                 | Inr None \<Rightarrow>
                     (case alloc (new_Item\<lparr>isFolder := True, name := part,
                                            parent := Some current\<rparr>) s of
                        (newDir, s1) \<Rightarrow>
                          mkdir_loop parts newDir
                            (store current (cur\<lparr>children := children cur @ [newDir]\<rparr>) s1)))))"

definition mkdir :: "string \<Rightarrow> FileSystem \<Rightarrow> error option \<times> FileSystem" where
  "mkdir path s =
     (if path = [] then (Some MissingPath, s)
      else if splitPath path = [] then (Some MissingPath, s)
      else mkdir_loop (splitPath path) (if hd path = CHR ''/'' then root s else currentDir s) s)"

definition touch :: "string \<Rightarrow> FileSystem \<Rightarrow> error option \<times> FileSystem" where
  "touch filename s =
     (if \<not> isValidName filename then (Some (InvalidName filename), s)
      else (case item s (currentDir s) of
              None \<Rightarrow> (Some MemoryFault, s)
            | Some cur \<Rightarrow>
                (case find_child s (children cur) filename of
                   Inl e \<Rightarrow> (Some e, s)
                 | Inr (Some child) \<Rightarrow> (Some AlreadyExists, s)
                 | Inr None \<Rightarrow>
                     (case alloc (new_Item\<lparr>isFolder := False, name := filename, content := [],
                                            parent := Some (currentDir s)\<rparr>) s of
                        (newFile, s1) \<Rightarrow>
                          (case saveToDisk (Some newFile)
                                  (store (currentDir s)
                                     (cur\<lparr>children := children cur @ [newFile]\<rparr>) s1) of
                             (Inl e, s2) \<Rightarrow> (Some e, s2)
                           | (Inr _, s2) \<Rightarrow> (None, s2))))))"

definition rm :: "nat \<Rightarrow> string \<Rightarrow> bool \<Rightarrow> FileSystem \<Rightarrow> (error option \<times> FileSystem) option" where
  "rm n nm recursive s =
     (case item s (currentDir s) of
        None \<Rightarrow> Some (Some MemoryFault, s)
      | Some cur \<Rightarrow>
          (case find_child s (children cur) nm of
             Inl e \<Rightarrow> Some (Some e, s)
           | Inr None \<Rightarrow> Some (Some NotFound, s)
           | Inr (Some target) \<Rightarrow>
               (case item s target of
                  None \<Rightarrow> Some (Some MemoryFault, s)
                | Some t \<Rightarrow>
                    if isFolder t \<and> children t \<noteq> [] \<and> \<not> recursive then Some (Some NotEmpty, s)
                    else
                      (case deleteTree n (Some target)
                              (store (currentDir s)
                                 (cur\<lparr>children := remove1 target (children cur)\<rparr>) s) of
                         None \<Rightarrow> None
                       | Some (Inl e, s1) \<Rightarrow> Some (Some e, s1)
                       | Some (Inr _, s1) \<Rightarrow> Some (None, s1)))))"

text \<open>\<^verbatim>\<open>p && p->isFolder\<close>: the pointer itself when it is not null and points at a folder.\<close>

definition folder_ptr :: "FileSystem \<Rightarrow> addr option \<Rightarrow> error + addr option" where
  "folder_ptr s p =
     (case p of
        None \<Rightarrow> Inr None
      | Some a \<Rightarrow>
          (case item s a of
             None \<Rightarrow> Inl MemoryFault
           | Some x \<Rightarrow> Inr (if isFolder x then Some a else None)))"

text \<open>\<^verbatim>\<open>int lastSlash = dest.find_last_of('/')\<close>: the index of the last slash, or
  \<^verbatim>\<open>npos\<close>, truncated to an \<^verbatim>\<open>int\<close>.\<close>

definition find_last_of :: "char \<Rightarrow> string \<Rightarrow> nat option" where
  "find_last_of c str =
     (if c \<in> set str then Some (length str - 1 - length (takeWhile (\<lambda>x. x \<noteq> c) (rev str)))
      else None)"

definition lastSlash :: "string \<Rightarrow> int" where
  "lastSlash dest =
     to_int (case find_last_of CHR ''/'' dest of None \<Rightarrow> npos | Some i \<Rightarrow> int i)"

text \<open>The test \<^verbatim>\<open>lastSlash == string::npos\<close> and the two \<^verbatim>\<open>substr\<close> calls that split \<^verbatim>\<open>dest\<close>
  into the path of the destination directory and the new name. \<^verbatim>\<open>dest.substr(lastSlash + 1)\<close>
  throws \<^verbatim>\<open>out_of_range\<close> when the converted position lies beyond the end of \<^verbatim>\<open>dest\<close>, which
  takes a \<^verbatim>\<open>dest\<close> of \<open>2 ^ 31\<close> characters or more.\<close>

definition split_dest_throws :: "string \<Rightarrow> bool" where
  "split_dest_throws dest =
     (to_size_t (lastSlash dest) \<noteq> npos \<and>
      int (length dest) < to_size_t (to_int (lastSlash dest + 1)))"

definition split_dest :: "string \<Rightarrow> string \<times> string" where
  "split_dest dest =
     (if to_size_t (lastSlash dest) = npos then (''.'', dest)
      else (substr dest 0 (to_size_t (lastSlash dest)),
            drop (nat (to_size_t (to_int (lastSlash dest + 1)))) dest))"

text \<open>\<^verbatim>\<open>destDir->children.push_back(newItem)\<close>\<close>

definition push_child :: "addr \<Rightarrow> addr \<Rightarrow> FileSystem \<Rightarrow> error option \<times> FileSystem" where
  "push_child dir child s =
     (case item s dir of
        None \<Rightarrow> (Some MemoryFault, s)
      | Some d \<Rightarrow> (None, store dir (d\<lparr>children := children d @ [child]\<rparr>) s))"

text \<open>The branch of \<^verbatim>\<open>cp\<close> for a destination that is an existing folder.\<close>

definition cp_into :: "nat \<Rightarrow> addr \<Rightarrow> addr \<Rightarrow> FileSystem \<Rightarrow> (error option \<times> FileSystem) option" where
  "cp_into n srcItem destItem s =
     (case item s srcItem of
        None \<Rightarrow> Some (Some MemoryFault, s)
      | Some src \<Rightarrow>
          (case item s destItem of
             None \<Rightarrow> Some (Some MemoryFault, s)
           | Some d \<Rightarrow>
               (case find_child s (children d) (name src) of
                  Inl e \<Rightarrow> Some (Some e, s)
                | Inr (Some child) \<Rightarrow> Some (Some AlreadyExists, s)
                | Inr None \<Rightarrow>
                    (case copyItem n srcItem destItem s of
                       None \<Rightarrow> None
                     | Some (Inl e, s1) \<Rightarrow> Some (Some e, s1)
                     | Some (Inr newItem, s1) \<Rightarrow> Some (push_child destItem newItem s1)))))"

text \<open>The other branch: the copy gets the last segment of \<^verbatim>\<open>dest\<close> as its name.\<close>

definition cp_as :: "nat \<Rightarrow> addr \<Rightarrow> string \<Rightarrow> FileSystem \<Rightarrow> (error option \<times> FileSystem) option" where
  "cp_as n srcItem dest s =
     (if split_dest_throws dest then Some (Some OutOfRange, s) else
      case getItem (fst (split_dest dest)) s of
        Inl e \<Rightarrow> Some (Some e, s)
      | Inr p \<Rightarrow>
          (case folder_ptr s p of
             Inl e \<Rightarrow> Some (Some e, s)
           | Inr None \<Rightarrow> Some (Some NotFound, s)
           | Inr (Some destDir) \<Rightarrow>
               (case item s destDir of
                  None \<Rightarrow> Some (Some MemoryFault, s)
                | Some d \<Rightarrow>
                    (case find_child s (children d) (snd (split_dest dest)) of
                       Inl e \<Rightarrow> Some (Some e, s)
                     | Inr (Some child) \<Rightarrow> Some (Some AlreadyExists, s)
                     | Inr None \<Rightarrow>
                         (case copyItem n srcItem destDir s of
                            None \<Rightarrow> None
                          | Some (Inl e, s1) \<Rightarrow> Some (Some e, s1)
                          | Some (Inr newItem, s1) \<Rightarrow>
                              (case item s1 newItem of
                                 None \<Rightarrow> Some (Some MemoryFault, s1)
                               | Some x \<Rightarrow>
                                   Some (push_child destDir newItem
                                     (store newItem (x\<lparr>name := snd (split_dest dest)\<rparr>) s1))))))))"

definition cp :: "nat \<Rightarrow> string \<Rightarrow> string \<Rightarrow> FileSystem \<Rightarrow> (error option \<times> FileSystem) option" where
  "cp n source dest s =
     (case getItem source s of
        Inl e \<Rightarrow> Some (Some e, s)
      | Inr None \<Rightarrow> Some (Some NotFound, s)
      | Inr (Some srcItem) \<Rightarrow>
          (case getItem dest s of
             Inl e \<Rightarrow> Some (Some e, s)
           | Inr destItem \<Rightarrow>
               (case folder_ptr s destItem of
                  Inl e \<Rightarrow> Some (Some e, s)
                | Inr (Some d) \<Rightarrow> cp_into n srcItem d s
                | Inr None \<Rightarrow> cp_as n srcItem dest s)))"

text \<open>The ancestor walk of \<^verbatim>\<open>mv\<close>: \<^verbatim>\<open>while (checkItem) { ...; checkItem = checkItem->parent; }\<close>.
  On a cyclic parent chain the loop does not end; the first argument bounds its steps.\<close>

fun mv_check :: "nat \<Rightarrow> FileSystem \<Rightarrow> addr option \<Rightarrow> addr \<Rightarrow> (error + unit) option" where
  "mv_check 0 s checkItem srcItem = None"
| "mv_check (Suc n) s None srcItem = Some (Inr ())"
| "mv_check (Suc n) s (Some c) srcItem =
     (if c = srcItem then Some (Inl InvalidOperation)
      else (case item s c of
              None \<Rightarrow> Some (Inl MemoryFault)
            | Some x \<Rightarrow> mv_check n s (parent x) srcItem))"

text \<open>\<^verbatim>\<open>if (srcItem->parent) { ... erase srcItem from srcItem->parent->children ... }\<close>\<close>

definition detach :: "addr \<Rightarrow> FileSystem \<Rightarrow> error option \<times> FileSystem" where
  "detach srcItem s =
     (case item s srcItem of
        None \<Rightarrow> (Some MemoryFault, s)
      | Some src \<Rightarrow>
          (case parent src of
             None \<Rightarrow> (None, s)
           | Some p \<Rightarrow>
               (case item s p of
                  None \<Rightarrow> (Some MemoryFault, s)
                | Some px \<Rightarrow> (None, store p (px\<lparr>children := remove1 srcItem (children px)\<rparr>) s))))"

text \<open>\<^verbatim>\<open>srcItem->parent = destItem; destItem->children.push_back(srcItem);\<close>\<close>

definition attach :: "addr \<Rightarrow> addr \<Rightarrow> FileSystem \<Rightarrow> error option \<times> FileSystem" where
  "attach srcItem destItem s =
     (case item s srcItem of
        None \<Rightarrow> (Some MemoryFault, s)
      | Some src \<Rightarrow> push_child destItem srcItem (store srcItem (src\<lparr>parent := Some destItem\<rparr>) s))"

definition mv_into :: "addr \<Rightarrow> addr \<Rightarrow> FileSystem \<Rightarrow> error option \<times> FileSystem" where
  "mv_into srcItem destItem s =
     (case item s srcItem of
        None \<Rightarrow> (Some MemoryFault, s)
      | Some src \<Rightarrow>
          (case item s destItem of
             None \<Rightarrow> (Some MemoryFault, s)
           | Some d \<Rightarrow>
               (case find_child s (children d) (name src) of
                  Inl e \<Rightarrow> (Some e, s)
                | Inr (Some child) \<Rightarrow> (Some AlreadyExists, s)
                | Inr None \<Rightarrow>
                    if parent src \<noteq> Some destItem then
                      (case detach srcItem s of
                         (Some e, s1) \<Rightarrow> (Some e, s1)
                       | (None, s1) \<Rightarrow> attach srcItem destItem s1)
                    else (None, s))))"

text \<open>\<^verbatim>\<open>if (child->name == destName && child != srcItem) throw ...\<close> over the children.\<close>

fun mv_exists :: "FileSystem \<Rightarrow> addr list \<Rightarrow> string \<Rightarrow> addr \<Rightarrow> error + bool" where
  "mv_exists s [] destName srcItem = Inr False"
| "mv_exists s (child # rest) destName srcItem =
     (case item s child of
        None \<Rightarrow> Inl MemoryFault
      | Some c \<Rightarrow>
          if name c = destName \<and> child \<noteq> srcItem then Inr True
          else mv_exists s rest destName srcItem)"

text \<open>\<^verbatim>\<open>srcItem->name = destName;\<close> and, unless the parent stays, the re-attachment.\<close>

definition mv_rename :: "addr \<Rightarrow> string \<Rightarrow> addr \<Rightarrow> bool \<Rightarrow> FileSystem \<Rightarrow> error option \<times> FileSystem" where
  "mv_rename srcItem destName destDir sameParent s =
     (case item s srcItem of
        None \<Rightarrow> (Some MemoryFault, s)
      | Some src \<Rightarrow>
          if \<not> sameParent then attach srcItem destDir (store srcItem (src\<lparr>name := destName\<rparr>) s)
          else (None, store srcItem (src\<lparr>name := destName\<rparr>) s))"

definition mv_as :: "addr \<Rightarrow> string \<Rightarrow> FileSystem \<Rightarrow> error option \<times> FileSystem" where
  "mv_as srcItem dest s =
     (if split_dest_throws dest then (Some OutOfRange, s) else
      case getItem (fst (split_dest dest)) s of
        Inl e \<Rightarrow> (Some e, s)
      | Inr p \<Rightarrow>
          (case folder_ptr s p of
             Inl e \<Rightarrow> (Some e, s)
           | Inr None \<Rightarrow> (Some NotFound, s)
           | Inr (Some destDir) \<Rightarrow>
               (case item s destDir of
                  None \<Rightarrow> (Some MemoryFault, s)
                | Some d \<Rightarrow>
                    (case mv_exists s (children d) (snd (split_dest dest)) srcItem of
                       Inl e \<Rightarrow> (Some e, s)
                     | Inr True \<Rightarrow> (Some AlreadyExists, s)
                     | Inr False \<Rightarrow>
                         (case item s srcItem of
                            None \<Rightarrow> (Some MemoryFault, s)
                          | Some src \<Rightarrow>
                              if parent src \<noteq> Some destDir then
                                (case detach srcItem s of
                                   (Some e, s1) \<Rightarrow> (Some e, s1)
                                 | (None, s1) \<Rightarrow>
                                     mv_rename srcItem (snd (split_dest dest)) destDir False s1)
                              else mv_rename srcItem (snd (split_dest dest)) destDir True s)))))"

definition mv :: "nat \<Rightarrow> string \<Rightarrow> string \<Rightarrow> FileSystem \<Rightarrow> (error option \<times> FileSystem) option" where
  "mv n source dest s =
     (case getItem source s of
        Inl e \<Rightarrow> Some (Some e, s)
      | Inr None \<Rightarrow> Some (Some NotFound, s)
      | Inr (Some srcItem) \<Rightarrow>
          (case item s srcItem of
             None \<Rightarrow> Some (Some MemoryFault, s)
           | Some src \<Rightarrow>
               (case (if isFolder src then
                        (case getItem dest s of
                           Inl e \<Rightarrow> Some (Inl e)
                         | Inr checkItem \<Rightarrow> mv_check n s checkItem srcItem)
                      else Some (Inr ())) of
                  None \<Rightarrow> None
                | Some (Inl e) \<Rightarrow> Some (Some e, s)
                | Some (Inr _) \<Rightarrow>
                    (case getItem dest s of
                       Inl e \<Rightarrow> Some (Some e, s)
                     | Inr destItem \<Rightarrow>
                         (case folder_ptr s destItem of
                            Inl e \<Rightarrow> Some (Some e, s)
                          | Inr (Some d) \<Rightarrow> Some (mv_into srcItem d s)
                          | Inr None \<Rightarrow> Some (mv_as srcItem dest s))))))"

text \<open>\<^verbatim>\<open>put\<close>: the second argument is the text the program has read from the real file
  (\<open>None\<close> when the file cannot be opened).\<close>

fun put_exists :: "FileSystem \<Rightarrow> addr list \<Rightarrow> string \<Rightarrow> error + bool" where
  "put_exists s [] realFile = Inr False"
| "put_exists s (child # rest) realFile =
     (case item s child of
        None \<Rightarrow> Inl MemoryFault
      | Some c \<Rightarrow>
          if \<not> isFolder c \<and> realFile = name c then Inr True
          else put_exists s rest realFile)"

definition put :: "string \<Rightarrow> string option \<Rightarrow> string \<Rightarrow> FileSystem \<Rightarrow> error option \<times> FileSystem" where
  "put realFile file fsPath s =
     (case file of
        None \<Rightarrow> (Some CannotOpen, s)
      | Some text \<Rightarrow>
          (case getItem fsPath s of
             Inl e \<Rightarrow> (Some e, s)
           | Inr p \<Rightarrow>
               (case folder_ptr s p of
                  Inl e \<Rightarrow> (Some e, s)
                | Inr None \<Rightarrow> (Some NotFound, s)
                | Inr (Some destDir) \<Rightarrow>
                    (case item s destDir of
                       None \<Rightarrow> (Some MemoryFault, s)
                     | Some d \<Rightarrow>
                         (case put_exists s (children d) realFile of
                            Inl e \<Rightarrow> (Some e, s)
                          | Inr True \<Rightarrow> (Some AlreadyExists, s)
                          | Inr False \<Rightarrow>
                              (case alloc (new_Item\<lparr>isFolder := False, name := realFile,
                                                     content := text, parent := Some destDir\<rparr>) s of
                                 (newFile, s1) \<Rightarrow>
                                   (case saveToDisk (Some newFile)
                                           (store destDir
                                              (d\<lparr>children := children d @ [newFile]\<rparr>) s1) of
                                      (Inl e, s2) \<Rightarrow> (Some e, s2)
                                    | (Inr _, s2) \<Rightarrow> (None, s2))))))))"

subsection \<open>Defragmentation\<close>

text \<open>The inner \<^verbatim>\<open>while (pos < data.length())\<close> loop of \<^verbatim>\<open>defrag\<close>, with the same \<^verbatim>\<open>int\<close>
  arithmetic as the loop of \<^verbatim>\<open>saveToDisk\<close>; it returns the next sector id. \<^verbatim>\<open>nextSector++\<close>
  runs below \<^verbatim>\<open>totalSectors\<close> only and cannot overflow. Writing \<^verbatim>\<open>sectorMap[nextSector]\<close> past
  the end of the bitmap is undefined.\<close>

function defrag_loop ::
  "addr \<Rightarrow> string \<Rightarrow> int \<Rightarrow> int \<Rightarrow> FileSystem \<Rightarrow> (error + int) \<times> FileSystem" where
  "defrag_loop file data pos nextSector s =
     (if to_size_t pos < int (length data) then
        (if totalSectors s \<le> nextSector then (Inl DiskFull, s)
         else if nextSector < 0 \<or> int (length (sectorMap s)) \<le> nextSector then (Inl MemoryFault, s)
         else (case item s file of
                 None \<Rightarrow> (Inl MemoryFault, s)
               | Some f \<Rightarrow>
                   defrag_loop file data (to_int (pos + chunk_len data pos)) (nextSector + 1)
                     ((store file (f\<lparr>sectors := sectors f @ [nextSector]\<rparr>) s)
                        \<lparr>sectorMap := (sectorMap s)[nat nextSector := True],
                         disk := (grow_disk (nat nextSector) (disk s))
                           [nat nextSector :=
                              substr data (to_size_t pos) (to_size_t (chunk_len data pos))]\<rparr>)))
      else (Inr nextSector, s))"
  by pat_completeness auto
termination
  by (relation "measure (\<lambda>(file, data, pos, nextSector, s). nat (totalSectors s - nextSector))")
    (auto simp: store_def)

declare defrag_loop.simps [simp del]

fun defrag_files :: "addr list \<Rightarrow> int \<Rightarrow> FileSystem \<Rightarrow> (error + int) \<times> FileSystem" where
  "defrag_files [] nextSector s = (Inr nextSector, s)"
| "defrag_files (file # rest) nextSector s =
     (case item s file of
        None \<Rightarrow> (Inl MemoryFault, s)
      | Some f \<Rightarrow>
          if isFolder f then defrag_files rest nextSector s
          else (case defrag_loop file (content f) 0 nextSector (store file (f\<lparr>sectors := []\<rparr>) s) of
                  (Inl e, s1) \<Rightarrow> (Inl e, s1)
                | (Inr nextSector', s1) \<Rightarrow> defrag_files rest nextSector' s1))"

definition defrag :: "nat \<Rightarrow> FileSystem \<Rightarrow> (error option \<times> FileSystem) option" where
  "defrag n s =
     (case collectAllFiles n s (root s) [] of
        None \<Rightarrow> None
      | Some (Inl e) \<Rightarrow> Some (Some e, s)
      | Some (Inr allFiles) \<Rightarrow>
          (case defrag_files allFiles 0
                  (s\<lparr>sectorMap := replicate (length (sectorMap s)) False\<rparr>) of
             (Inl e, s1) \<Rightarrow> Some (Some e, s1)
           | (Inr nextSector, s1) \<Rightarrow> Some (None, s1)))"

subsection \<open>Path resolution as the specification words it\<close>

text \<open>The definitions of this subsection follow the specification (section 4.3), not
  the code; \<open>getItem\<close> is compared with them below.\<close>

text \<open>Splitting on a delimiter: the fields between the delimiters, empty ones included.\<close>

fun split_on :: "char \<Rightarrow> string \<Rightarrow> string list" where
  "split_on d [] = [[]]"
| "split_on d (c # cs) =
     (if c = d then [] # split_on d cs
      else (c # hd (split_on d cs)) # tl (split_on d cs))"

text \<open>"parent, or itself if it has no parent"\<close>

definition parent_or_self :: "FileSystem \<Rightarrow> addr \<Rightarrow> addr" where
  "parent_or_self s a =
     (case item s a of
        None \<Rightarrow> a
      | Some x \<Rightarrow> (case parent x of Some p \<Rightarrow> p | None \<Rightarrow> a))"

text \<open>"a child with that exact name among the current node's children"\<close>

definition child_named :: "FileSystem \<Rightarrow> addr \<Rightarrow> string \<Rightarrow> addr option" where
  "child_named s a seg =
     (case item s a of
        None \<Rightarrow> None
      | Some x \<Rightarrow>
          find (\<lambda>c. case item s c of Some y \<Rightarrow> name y = seg | None \<Rightarrow> False) (children x))"

fun resolve_walk :: "FileSystem \<Rightarrow> addr \<Rightarrow> string list \<Rightarrow> addr option" where
  "resolve_walk s node [] = Some node"
| "resolve_walk s node (seg # segs) =
     (if seg = ''.'' then resolve_walk s node segs
      else if seg = ''..'' then resolve_walk s (parent_or_self s node) segs
      else (case child_named s node seg of
              None \<Rightarrow> None
            | Some c \<Rightarrow> resolve_walk s c segs))"

definition resolve :: "FileSystem \<Rightarrow> addr \<Rightarrow> string \<Rightarrow> addr option" where
  "resolve s start path =
     (if path = [] \<or> path = ''.'' then Some start
      else if path = ''/'' then Some (root s)
      else if path = ''..'' then Some (parent_or_self s start)
      else resolve_walk s (if hd path = CHR ''/'' then root s else start)
             (filter (\<lambda>seg. seg \<noteq> []) (split_on CHR ''/'' path)))"

text \<open>A store without dangling pointers: the root and the current directory are live,
  and so are the parent and the children of every live node.\<close>

definition no_dangling :: "FileSystem \<Rightarrow> bool" where
  "no_dangling s =
     (item s (root s) \<noteq> None \<and> item s (currentDir s) \<noteq> None \<and>
      list_all (\<lambda>cell. case cell of
                  None \<Rightarrow> True
                | Some x \<Rightarrow>
                    (case parent x of None \<Rightarrow> True | Some p \<Rightarrow> item s p \<noteq> None) \<and>
                    list_all (\<lambda>c. item s c \<noteq> None) (children x))
        (heap s))"

subsection \<open>What a sector list holds\<close>

text \<open>The sectors \<open>ids\<close> are distinct, marked allocated, and slot \<open>j\<close> of them holds the
  \<open>j\<close>-th chunk of \<open>data\<close>.\<close>

definition written :: "string \<Rightarrow> int list \<Rightarrow> FileSystem \<Rightarrow> bool" where
  "written data ids s =
     (distinct ids \<and>
      (\<forall>j < length ids.
         0 \<le> ids ! j \<and> nat (ids ! j) < length (sectorMap s) \<and> sectorMap s ! nat (ids ! j) \<and>
         nat (ids ! j) < length (disk s) \<and>
         disk s ! nat (ids ! j) = take SECTOR_SIZE (drop (SECTOR_SIZE * j) data)))"

text \<open>The bytes that the disk holds for a sector list, in order.\<close>

definition read_back :: "FileSystem \<Rightarrow> int list \<Rightarrow> string" where
  "read_back s ids = concat (map (\<lambda>sector. disk s ! nat sector) ids)"

text \<open>The number of sectors that \<open>n\<close> bytes need: \<open>n / SECTOR_SIZE\<close>, rounded up.\<close>

definition sectors_needed :: "nat \<Rightarrow> nat" where
  "sectors_needed n = (n + SECTOR_SIZE - 1) div SECTOR_SIZE"

text \<open>The invariant of the write loops. The loops compute with \<open>l\<close>, the value of
  \<^verbatim>\<open>(int)data.length()\<close> when it is not negative, and test \<open>pos\<close> against the length \<open>n\<close> itself;
  \<open>pos\<close> advances by whole sectors until it reaches \<open>l\<close>. When \<open>l\<close> is the length, the sectors
  \<open>ids\<close> are those that \<open>pos\<close> bytes need.\<close>

definition loop_inv :: "nat \<Rightarrow> nat \<Rightarrow> nat \<Rightarrow> int list \<Rightarrow> bool" where
  "loop_inv n l pos ids =
     (l \<le> n \<and> pos = min (SECTOR_SIZE * length ids) l \<and>
      (l = n \<longrightarrow> length ids = sectors_needed pos))"

subsection \<open>Segments of a \<^verbatim>\<open>mkdir\<close> path\<close>



subsection \<open>Commands and reachable states\<close>

text \<open>The commands of the shell that change the filesystem (\<^verbatim>\<open>pwd\<close>, \<^verbatim>\<open>ls\<close>, \<^verbatim>\<open>get\<close> and
  \<^verbatim>\<open>info\<close> only read it). \<open>run\<close> gives a command the recursion depth \<open>n\<close>.\<close>

datatype command =
    Cd string
  | Mkdir string
  | Touch string
  | Rm string bool
  | Cp string string
  | Mv string string
  | Put string "string option" string
  | Defrag

fun run :: "nat \<Rightarrow> command \<Rightarrow> FileSystem \<Rightarrow> (error option \<times> FileSystem) option" where
  "run n (Cd path) s = Some (cd path s)"
| "run n (Mkdir path) s = Some (mkdir path s)"
| "run n (Touch filename) s = Some (touch filename s)"
| "run n (Rm nm recursive) s = rm n nm recursive s"
| "run n (Cp source dest) s = cp n source dest s"
| "run n (Mv source dest) s = mv n source dest s"
| "run n (Put realFile file fsPath) s = Some (put realFile file fsPath s)"
| "run n Defrag s = defrag n s"

text \<open>The results that the sector counts survive. No command may have run into undefined
  behaviour. \<^verbatim>\<open>put\<close> and \<^verbatim>\<open>defrag\<close> may not have reported \<open>DiskFull\<close>: neither rolls back. The
  content that \<^verbatim>\<open>put\<close> stores is shorter than \<open>2 ^ 31\<close> bytes, the lengths that the \<^verbatim>\<open>int\<close>
  arithmetic of the write loops can hold. Every other result is admitted, errors included,
  and so is a \<^verbatim>\<open>cp\<close> that reports \<open>DiskFull\<close>.\<close>

fun admissible :: "command \<Rightarrow> error option \<Rightarrow> bool" where
  "admissible (Put realFile file fsPath) e =
     (e \<noteq> Some MemoryFault \<and> e \<noteq> Some DiskFull \<and>
      (case file of None \<Rightarrow> True | Some bytes \<Rightarrow> length bytes < 2 ^ 31))"
| "admissible Defrag e = (e \<noteq> Some MemoryFault \<and> e \<noteq> Some DiskFull)"
| "admissible c e = (e \<noteq> Some MemoryFault)"

text \<open>The states that a fresh filesystem reaches by commands that return with such results.\<close>

inductive reachable_ok :: "FileSystem \<Rightarrow> bool" where
  fresh: "0 \<le> capacity \<Longrightarrow> reachable_ok (FileSystem_new capacity)"
| step: "reachable_ok s \<Longrightarrow> run n c s = Some (e, s') \<Longrightarrow> admissible c e \<Longrightarrow> reachable_ok s'"

text \<open>The live nodes: the root and what the \<^verbatim>\<open>children\<close> lists reach from it.\<close>

inductive live :: "FileSystem \<Rightarrow> addr \<Rightarrow> bool" for s :: FileSystem where
  root: "live s (root s)"
| child: "live s p \<Longrightarrow> item s p = Some x \<Longrightarrow> c \<in> set (children x) \<Longrightarrow> live s c"

text \<open>A length that an \<^verbatim>\<open>int\<close> holds.\<close>

definition fits_int :: "nat \<Rightarrow> bool" where
  "fits_int n = (n < 2 ^ 31)"

text \<open>A file lists as many sectors as its content needs, and its content is of a length
  that the write loops can hold; a directory has no content and no sectors.\<close>

definition item_ok :: "Item \<Rightarrow> bool" where
  "item_ok x =
     (if isFolder x then content x = [] \<and> sectors x = []
      else fits_int (length (content x)) \<and>
           length (sectors x) = sectors_needed (length (content x)))"

text \<open>The invariant of the reachable states. A set \<open>G\<close> of addresses holds the root and the
  current directory, and every node in it satisfies \<open>item_ok\<close> and points into \<open>G\<close> only.
  The nodes outside \<open>G\<close> are the copies that a failed \<^verbatim>\<open>cp\<close> has left behind half written:
  nothing in \<open>G\<close> points at them, so no command finds them again.\<close>

definition node_ok :: "addr set \<Rightarrow> Item \<Rightarrow> bool" where
  "node_ok G x =
     (item_ok x \<and> set (children x) \<subseteq> G \<and> (case parent x of None \<Rightarrow> True | Some p \<Rightarrow> p \<in> G))"

definition closed :: "addr set \<Rightarrow> FileSystem \<Rightarrow> bool" where
  "closed G s =
     (root s \<in> G \<and> currentDir s \<in> G \<and> (\<forall>a \<in> G. a < length (heap s)) \<and>
      (\<forall>a \<in> G. case item s a of None \<Rightarrow> True | Some x \<Rightarrow> node_ok G x))"

subsection \<open>Reading nodes\<close>

text \<open>The sector list and the content of the node at an address (empty when the cell is
  empty).\<close>

definition sectors_of :: "FileSystem \<Rightarrow> addr \<Rightarrow> int list" where
  "sectors_of s a = (case item s a of Some x \<Rightarrow> sectors x | None \<Rightarrow> [])"

definition content_of :: "FileSystem \<Rightarrow> addr \<Rightarrow> string" where
  "content_of s a = (case item s a of Some x \<Rightarrow> content x | None \<Rightarrow> [])"

text \<open>The node at the address is a file.\<close>

definition is_file :: "FileSystem \<Rightarrow> addr \<Rightarrow> bool" where
  "is_file s a = (case item s a of Some x \<Rightarrow> \<not> isFolder x | None \<Rightarrow> False)"

section \<open>Example states\<close>

definition fs_example :: FileSystem where
  "fs_example = \<lparr>disk = ['''', '''', ''''], sectorMap = [True, True, True], root = 0,
     currentDir = 0, totalSectors = 3,
     heap = [Some (new_Item\<lparr>isFolder := True, name := ''/''\<rparr>)]\<rparr>"

text \<open>The tree \<^verbatim>\<open>/docs/notes.txt\<close>, with \<^verbatim>\<open>/docs\<close> as the current directory.\<close>

definition fs_tree :: FileSystem where
  "fs_tree = \<lparr>disk = ['''', ''''], sectorMap = [False, False], root = 0,
     currentDir = 1, totalSectors = 2,
     heap = [Some (new_Item\<lparr>isFolder := True, name := ''/'', children := [1]\<rparr>),
             Some (new_Item\<lparr>isFolder := True, name := ''docs'', children := [2], parent := Some 0\<rparr>),
             Some (new_Item\<lparr>name := ''notes.txt'', parent := Some 1\<rparr>)]\<rparr>"

text \<open>A disk of two sectors and a file of 130 bytes that still owns sector 0 from a
  shorter content: the state in which \<^verbatim>\<open>saveToDisk\<close> rewrites the file.\<close>

definition file_130 :: Item where
  "file_130 = new_Item\<lparr>name := ''a'', content := replicate 130 CHR ''x'', sectors := [0],
     parent := Some 0\<rparr>"

definition fs_rewrite :: FileSystem where
  "fs_rewrite = \<lparr>disk = [''old'', ''''], sectorMap = [True, False], root = 0,
     currentDir = 0, totalSectors = 2,
     heap = [Some (new_Item\<lparr>isFolder := True, name := ''/'', children := [1]\<rparr>),
             Some file_130]\<rparr>"

text \<open>A disk of three sectors after \<^verbatim>\<open>put a .\<close> with a real file of 128 bytes.\<close>

definition fs_put_a :: FileSystem where
  "fs_put_a = snd (put ''a'' (Some (replicate 128 CHR ''x'')) ''.'' (FileSystem_new 3))"

text \<open>The state that \<^verbatim>\<open>cp a b\<close> leaves behind there: the third cell of the store is the
  copy, which no \<^verbatim>\<open>children\<close> list holds.\<close>

definition fs_cp_failed :: FileSystem where
  "fs_cp_failed = fs_put_a
     \<lparr>disk := [replicate 64 CHR ''x'', replicate 64 CHR ''x'', replicate 64 CHR ''x''],
      sectorMap := [True, True, True],
      heap := heap fs_put_a @
        [Some (new_Item\<lparr>name := ''a'', content := replicate 128 CHR ''x'', sectors := [2],
                 parent := Some 0\<rparr>)]\<rparr>"

text \<open>A disk of four sectors after \<^verbatim>\<open>mkdir d\<close>, and the state that \<^verbatim>\<open>mv d d/x\<close> makes of
  it: the directory is its own parent and its own child, and the root has lost it.\<close>

definition fs_d :: FileSystem where
  "fs_d = snd (mkdir ''d'' (FileSystem_new 4))"

definition fs_d_cycle :: FileSystem where
  "fs_d_cycle = fs_d
     \<lparr>heap := [Some (new_Item\<lparr>isFolder := True, name := ''/''\<rparr>),
               Some (new_Item\<lparr>isFolder := True, name := ''x'', children := [1],
                        parent := Some 1\<rparr>)]\<rparr>"

text \<open>A disk of two sectors after \<^verbatim>\<open>mkdir d/e\<close>.\<close>

definition fs_d_e :: FileSystem where
  "fs_d_e = snd (mkdir ''d/e'' (FileSystem_new 2))"

section \<open>The sector allocator\<close>

text \<open>
  Claim C7. \<^verbatim>\<open>allocateSector\<close> scans the bitmap in ascending order: it returns an id \<open>k\<close>
  exactly when \<open>k\<close> is the lowest free id, and then marks \<open>k\<close> (and nothing else) allocated;
  it fails exactly when no id is free, the failure is \<open>DiskFull\<close> and leaves the state as it
  was. Consequently, after \<^verbatim>\<open>freeSector sector\<close> has succeeded the next \<^verbatim>\<open>allocateSector\<close>
  succeeds and returns \<open>sector\<close> or a lower id that was free.
\<close>

theorem allocateSector_lowest_free:
  "(\<forall>k s'. allocateSector s = (Inr k, s') \<longleftrightarrow>
      0 \<le> k \<and> nat k < length (sectorMap s) \<and> \<not> sectorMap s ! nat k \<and>
      (\<forall>j < nat k. sectorMap s ! j) \<and> s' = s\<lparr>sectorMap := (sectorMap s)[nat k := True]\<rparr>) \<and>
   (allocateSector s = (Inl DiskFull, s) \<longleftrightarrow> (\<forall>j < length (sectorMap s). sectorMap s ! j)) \<and>
   (\<forall>e s'. allocateSector s = (Inl e, s') \<longrightarrow> e = DiskFull \<and> s' = s) \<and>
   (\<forall>sector s1. freeSector sector s = (Inr (), s1) \<longrightarrow>
      (\<exists>k s2. allocateSector s1 = (Inr k, s2) \<and> 0 \<le> k \<and> k \<le> sector \<and>
         \<not> sectorMap s1 ! nat k))"
proof (intro conjI allI impI)
  fix k s'
  show "allocateSector s = (Inr k, s') \<longleftrightarrow>
      0 \<le> k \<and> nat k < length (sectorMap s) \<and> \<not> sectorMap s ! nat k \<and>
      (\<forall>j < nat k. sectorMap s ! j) \<and> s' = s\<lparr>sectorMap := (sectorMap s)[nat k := True]\<rparr>"
    (is "?L \<longleftrightarrow> ?R")
  proof
    assume ?L
    then show ?R
      using allocateSector_loop_Inr [of 0 s k s'] by (simp add: allocateSector_def)
  next
    assume R: ?R
    from allocateSector_cases [of s] show ?L
    proof (elim disjE exE conjE)
      fix k'
      assume k': "allocateSector s = (Inr k', s\<lparr>sectorMap := (sectorMap s)[nat k' := True]\<rparr>)"
        "0 \<le> k'" "nat k' < length (sectorMap s)" "\<not> sectorMap s ! nat k'"
        "\<forall>j<nat k'. sectorMap s ! j"
      have "\<not> nat k' < nat k" using R k'(4) by blast
      moreover have "\<not> nat k < nat k'" using R k'(5) by blast
      ultimately have "k' = k" using R k'(2) by linarith
      with k'(1) R show ?L by simp
    next
      assume "\<forall>j<length (sectorMap s). sectorMap s ! j"
      with R show ?L by blast
    qed
  qed
next
  show "allocateSector s = (Inl DiskFull, s) \<longleftrightarrow> (\<forall>j < length (sectorMap s). sectorMap s ! j)"
    using allocateSector_cases [of s] by auto
next
  fix e s'
  assume "allocateSector s = (Inl e, s')"
  then show "e = DiskFull" and "s' = s"
    using allocateSector_loop_Inl [of 0 s e s'] by (simp_all add: allocateSector_def)
next
  fix sector s1
  assume f: "freeSector sector s = (Inr (), s1)"
  then have range: "0 \<le> sector" "nat sector < length (sectorMap s)"
    and s1: "s1 = s\<lparr>sectorMap := (sectorMap s)[nat sector := False]\<rparr>"
    by (auto simp: freeSector_def split: if_splits)
  then have free: "nat sector < length (sectorMap s1)" "\<not> sectorMap s1 ! nat sector"
    by simp_all
  from allocateSector_cases [of s1]
  show "\<exists>k s2. allocateSector s1 = (Inr k, s2) \<and> 0 \<le> k \<and> k \<le> sector \<and> \<not> sectorMap s1 ! nat k"
  proof (elim disjE exE conjE)
    fix k
    assume k: "allocateSector s1 = (Inr k, s1\<lparr>sectorMap := (sectorMap s1)[nat k := True]\<rparr>)"
      "0 \<le> k" "\<not> sectorMap s1 ! nat k" "\<forall>j<nat k. sectorMap s1 ! j"
    have "\<not> nat sector < nat k" using k(4) free(2) by blast
    then have "k \<le> sector" using range(1) k(2) by linarith
    with k show ?thesis by blast
  next
    assume "\<forall>j<length (sectorMap s1). sectorMap s1 ! j"
    with free show ?thesis by blast
  qed
qed

theorem allocateSector_lowest_free_witness:
  "freeSector 1 fs_example = (Inr (), fs_example\<lparr>sectorMap := [True, False, True]\<rparr>) \<and>
   (\<exists>k s2. allocateSector (fs_example\<lparr>sectorMap := [True, False, True]\<rparr>) = (Inr k, s2) \<and>
      0 \<le> k \<and> k \<le> 1 \<and> \<not> sectorMap (fs_example\<lparr>sectorMap := [True, False, True]\<rparr>) ! nat k) \<and>
   allocateSector fs_example = (Inl DiskFull, fs_example) \<and>
   allocateSector (fs_example\<lparr>sectorMap := [True, False, False]\<rparr>) =
     (Inr 1, fs_example\<lparr>sectorMap := [True, True, False]\<rparr>)"
proof -
  let ?s1 = "fs_example\<lparr>sectorMap := [True, False, True]\<rparr>"
  let ?s2 = "fs_example\<lparr>sectorMap := [True, False, False]\<rparr>"
  have f: "freeSector 1 fs_example = (Inr (), ?s1)"
    by (simp add: freeSector_def fs_example_def)
  have a: "\<forall>j < length (sectorMap fs_example). sectorMap fs_example ! j"
    by (simp add: fs_example_def less_Suc_eq)
  have b: "0 \<le> (1::int) \<and> nat 1 < length (sectorMap ?s2) \<and> \<not> sectorMap ?s2 ! nat 1 \<and>
      (\<forall>j < nat 1. sectorMap ?s2 ! j) \<and>
      fs_example\<lparr>sectorMap := [True, True, False]\<rparr> = ?s2\<lparr>sectorMap := (sectorMap ?s2)[nat 1 := True]\<rparr>"
    by (simp add: fs_example_def)
  note T = allocateSector_lowest_free [of fs_example]
  note T2 = allocateSector_lowest_free [of ?s2]
  have 1: "\<exists>k s2. allocateSector ?s1 = (Inr k, s2) \<and> 0 \<le> k \<and> k \<le> 1 \<and> \<not> sectorMap ?s1 ! nat k"
    using T f by blast
  have 2: "allocateSector fs_example = (Inl DiskFull, fs_example)"
    using T a by blast
  have 3: "allocateSector ?s2 = (Inr 1, fs_example\<lparr>sectorMap := [True, True, False]\<rparr>)"
    using T2 b by blast
  from f 1 2 3 show ?thesis by blast
qed

section \<open>Path resolution\<close>

lemma split_on_not_Nil: "split_on d xs \<noteq> []"
  by (induction xs) auto

lemma split_on_takeWhile:
  "split_on d xs = takeWhile (\<lambda>c. c \<noteq> d) xs #
     (case dropWhile (\<lambda>c. c \<noteq> d) xs of [] \<Rightarrow> [] | c # r \<Rightarrow> split_on d r)"
proof (induction xs)
  case Nil
  show ?case by simp
next
  case (Cons x xs)
  show ?case
  proof (cases "x = d")
    case True
    then show ?thesis by simp
  next
    case False
    then show ?thesis using Cons by simp
  qed
qed

lemma splitPath_loop_split_on:
  "splitPath_loop stream parts =
     (if stream = [] then parts
      else parts @ filter (\<lambda>seg. seg \<noteq> []) (split_on CHR ''/'' stream))"
proof (induction stream parts rule: splitPath_loop.induct)
  case (1 stream parts)
  show ?case
  proof (cases "stream = []")
    case True
    then show ?thesis by (simp add: splitPath_loop.simps [of "[]"] getline_def)
  next
    case False
    let ?part = "takeWhile (\<lambda>c. c \<noteq> CHR ''/'') stream"
    let ?rest = "drop 1 (dropWhile (\<lambda>c. c \<noteq> CHR ''/'') stream)"
    let ?parts = "if ?part \<noteq> [] then parts @ [?part] else parts"
    have g: "getline CHR ''/'' stream = Some (?part, ?rest)"
      using False by (simp add: getline_def)
    have unfold: "splitPath_loop stream parts = splitPath_loop ?rest ?parts"
      by (subst splitPath_loop.simps) (simp add: g)
    have IH: "splitPath_loop ?rest ?parts =
      (if ?rest = [] then ?parts
       else ?parts @ filter (\<lambda>seg. seg \<noteq> []) (split_on CHR ''/'' ?rest))"
      using "1.IH" [OF g refl] by simp
    have sp: "split_on CHR ''/'' stream = ?part #
        (case dropWhile (\<lambda>c. c \<noteq> CHR ''/'') stream of [] \<Rightarrow> [] | c # r \<Rightarrow> split_on CHR ''/'' r)"
      by (rule split_on_takeWhile)
    show ?thesis
    proof (cases "dropWhile (\<lambda>c. c \<noteq> CHR ''/'') stream")
      case Nil
      have r: "?rest = []" unfolding Nil by simp
      from IH have "splitPath_loop ?rest ?parts = ?parts"
        by (simp only: r if_True refl)
      with unfold have "splitPath_loop stream parts = ?parts" by (simp only:)
      moreover have "filter (\<lambda>seg. seg \<noteq> []) (split_on CHR ''/'' stream) =
          (if ?part \<noteq> [] then [?part] else [])"
        unfolding sp Nil by simp
      ultimately show ?thesis using False by simp
    next
      case (Cons c r)
      have r: "?rest = r" unfolding Cons by simp
      have f: "filter (\<lambda>seg. seg \<noteq> []) (split_on CHR ''/'' stream) =
          (if ?part \<noteq> [] then [?part] else []) @ filter (\<lambda>seg. seg \<noteq> []) (split_on CHR ''/'' r)"
        unfolding sp Cons by simp
      show ?thesis
      proof (cases "r = []")
        case True
        from IH have "splitPath_loop ?rest ?parts = ?parts"
          by (simp only: r True if_True refl)
        with unfold have "splitPath_loop stream parts = ?parts" by (simp only:)
        with f True False show ?thesis by simp
      next
        case rne: False
        from IH have "splitPath_loop ?rest ?parts =
            ?parts @ filter (\<lambda>seg. seg \<noteq> []) (split_on CHR ''/'' r)"
          by (simp only: r rne if_False)
        with unfold have "splitPath_loop stream parts =
            ?parts @ filter (\<lambda>seg. seg \<noteq> []) (split_on CHR ''/'' r)" by (simp only:)
        with f False show ?thesis by simp
      qed
    qed
  qed
qed

lemma splitPath_split_on:
  "splitPath path = filter (\<lambda>seg. seg \<noteq> []) (split_on CHR ''/'' path)"
  by (cases "path = []") (simp_all add: splitPath_def splitPath_loop_split_on)


lemma find_child_result:
  "find_child s cs part = Inl e \<Longrightarrow> e = MemoryFault"
  "find_child s cs part = Inr r \<Longrightarrow>
     r = find (\<lambda>c. case item s c of Some y \<Rightarrow> name y = part | None \<Rightarrow> False) cs"
  by (induction cs) (auto split: option.splits if_splits)

lemma find_child_live:
  "list_all (\<lambda>c. item s c \<noteq> None) cs \<Longrightarrow>
     find_child s cs part =
       Inr (find (\<lambda>c. case item s c of Some y \<Rightarrow> name y = part | None \<Rightarrow> False) cs)"
  by (induction cs) (auto split: option.splits)

lemma find_Some_mem: "find P xs = Some x \<Longrightarrow> x \<in> set xs"
  by (induction xs) (auto split: if_splits)

lemma no_dangling_item:
  assumes "no_dangling s" "item s a = Some x"
  shows "(\<forall>p. parent x = Some p \<longrightarrow> item s p \<noteq> None) \<and> list_all (\<lambda>c. item s c \<noteq> None) (children x)"
proof -
  from assms(2) have "a < length (heap s)" "heap s ! a = Some x"
    by (auto simp: item_def split: if_splits)
  then have "Some x \<in> set (heap s)" by (metis nth_mem)
  with assms(1) show ?thesis
    by (auto simp: no_dangling_def list_all_iff split: option.splits)
qed

lemma getItem_loop_result:
  "getItem_loop s current parts = Inl e \<Longrightarrow> e = MemoryFault"
  "getItem_loop s current parts = Inr r \<Longrightarrow> r = resolve_walk s current parts"
proof (induction parts arbitrary: current)
  case Nil
  { case 1 then show ?case by simp }
  { case 2 then show ?case by simp }
next
  case (Cons part parts)
  { case 1
    then show ?case
      using Cons.IH(1) find_child_result(1)
      by (fastforce split: if_splits option.splits sum.splits) }
  { case 2
    then show ?case
      using Cons.IH(2) find_child_result(2)
      by (fastforce simp: parent_or_self_def child_named_def split: if_splits option.splits sum.splits) }
qed

lemma getItem_loop_live:
  "no_dangling s \<Longrightarrow> item s current \<noteq> None \<Longrightarrow>
     getItem_loop s current parts = Inr (resolve_walk s current parts)"
proof (induction parts arbitrary: current)
  case Nil
  show ?case by simp
next
  case (Cons part parts)
  from Cons.prems(2) obtain c where c: "item s current = Some c" by auto
  note nd = no_dangling_item [OF Cons.prems(1) c]
  show ?case
  proof (cases "part = ''.''")
    case True
    then show ?thesis using Cons by simp
  next
    case notdot: False
    show ?thesis
    proof (cases "part = ''..''")
      case True
      then show ?thesis
        using Cons.IH [OF Cons.prems(1)] Cons.prems(2) c nd
        by (auto simp: parent_or_self_def split: option.splits)
    next
      case False
      have fc: "find_child s (children c) part =
          Inr (find (\<lambda>c. case item s c of Some y \<Rightarrow> name y = part | None \<Rightarrow> False) (children c))"
        using nd by (simp add: find_child_live)
      show ?thesis
      proof (cases "find (\<lambda>c. case item s c of Some y \<Rightarrow> name y = part | None \<Rightarrow> False) (children c)")
        case None
        then show ?thesis using notdot False c fc by (simp add: child_named_def)
      next
        case (Some child)
        then have "child \<in> set (children c)" by (rule find_Some_mem)
        with nd have "item s child \<noteq> None" by (auto simp: list_all_iff)
        then show ?thesis
          using notdot False c fc Some Cons.IH [OF Cons.prems(1), of child]
          by (simp add: child_named_def)
      qed
    qed
  qed
qed

text \<open>
  Claim C8. Path resolution follows the rules of the specification: \<open>getItem\<close>, started
  at the current directory, returns what \<open>resolve\<close> prescribes (the empty path and "." give
  the starting node, "/" the root, ".." the parent or the node itself when it has none,
  and any other path is split on '/', empty segments dropped, and walked from the root
  exactly when it begins with '/': "." stays, ".." moves to the parent if there is one,
  any other segment selects the first child of exactly that name, and the result is the
  null pointer when there is none). \<open>getItem\<close> throws nothing: whenever it returns it
  agrees with \<open>resolve\<close>, and in a store without dangling pointers it always returns.
  The segments it walks are the non-empty fields of the path between the '/' characters.
  \<open>getItem\<close> has no state among its results: the C++ function assigns to no member and
  to no node.
\<close>

theorem getItem_resolve:
  "(\<forall>r. getItem path s = Inr r \<longrightarrow> r = resolve s (currentDir s) path) \<and>
   (\<forall>e. getItem path s = Inl e \<longrightarrow> e = MemoryFault) \<and>
   (no_dangling s \<longrightarrow> getItem path s = Inr (resolve s (currentDir s) path)) \<and>
   splitPath path = filter (\<lambda>seg. seg \<noteq> []) (split_on CHR ''/'' path)"
proof (intro conjI allI impI)
  fix r assume "getItem path s = Inr r"
  then show "r = resolve s (currentDir s) path"
    using getItem_loop_result(2) [of s _ "splitPath path" r]
    by (auto simp: getItem_def resolve_def parent_or_self_def splitPath_split_on
        split: if_splits option.splits)
next
  fix e assume "getItem path s = Inl e"
  then show "e = MemoryFault"
    using getItem_loop_result(1) [of s _ "splitPath path" e]
    by (auto simp: getItem_def split: if_splits option.splits)
next
  assume nd: "no_dangling s"
  then have live: "item s (root s) \<noteq> None" "item s (currentDir s) \<noteq> None"
    by (simp_all add: no_dangling_def)
  then show "getItem path s = Inr (resolve s (currentDir s) path)"
    using getItem_loop_live [OF nd, of _ "splitPath path"]
    by (auto simp: getItem_def resolve_def parent_or_self_def splitPath_split_on
        split: option.splits)
next
  show "splitPath path = filter (\<lambda>seg. seg \<noteq> []) (split_on CHR ''/'' path)"
    by (rule splitPath_split_on)
qed

theorem getItem_resolve_witness:
  "no_dangling fs_tree \<and>
   getItem ''/docs//notes.txt'' fs_tree = Inr (Some 2) \<and>
   getItem ''.././docs/missing'' fs_tree = Inr None \<and>
   getItem ''..'' fs_tree = Inr (Some 0) \<and>
   getItem ''notes.txt/..'' fs_tree = Inr (Some 1) \<and>
   splitPath ''/docs//notes.txt'' = [''docs'', ''notes.txt'']"
proof -
  have nd: "no_dangling fs_tree" by code_simp
  have r1: "resolve fs_tree (currentDir fs_tree) ''/docs//notes.txt'' = Some 2" by code_simp
  have r2: "resolve fs_tree (currentDir fs_tree) ''.././docs/missing'' = None" by code_simp
  have r3: "resolve fs_tree (currentDir fs_tree) ''..'' = Some 0" by code_simp
  have r4: "resolve fs_tree (currentDir fs_tree) ''notes.txt/..'' = Some 1" by code_simp
  have r5: "filter (\<lambda>seg. seg \<noteq> []) (split_on CHR ''/'' ''/docs//notes.txt'') = [''docs'', ''notes.txt'']"
    by code_simp
  have g: "getItem p fs_tree = Inr (resolve fs_tree (currentDir fs_tree) p)" for p
    using getItem_resolve [of p fs_tree] nd by blast
  have sp: "splitPath ''/docs//notes.txt'' = [''docs'', ''notes.txt'']"
    using getItem_resolve [of "''/docs//notes.txt''" fs_tree] r5 by (simp only:)
  show ?thesis
    unfolding g r1 r2 r3 r4 sp using nd by simp
qed

section \<open>The content writer\<close>

subsection \<open>Machine integers\<close>

lemma to_int_id: "- (2 ^ 31) \<le> i \<Longrightarrow> i < 2 ^ 31 \<Longrightarrow> to_int i = i"
  by (simp add: to_int_def)

lemma to_size_t_id: "0 \<le> i \<Longrightarrow> i < 2 ^ 64 \<Longrightarrow> to_size_t i = i"
  by (simp add: to_size_t_def)

lemma to_int_range: "- (2 ^ 31) \<le> to_int i \<and> to_int i < 2 ^ 31"
  by (simp add: to_int_def)

lemma to_int_length:
  assumes "to_int (int n) = int l"
  shows "l \<le> n" and "l < 2 ^ 31"
proof -
  have "(int n + 2 ^ 31) mod 2 ^ 32 \<le> int n + 2 ^ 31"
    by (rule zmod_le_nonneg_dividend) simp
  with assms show "l \<le> n" by (simp add: to_int_def)
  have "int l < 2 ^ 31" using to_int_range [of "int n"] assms by simp
  then show "l < 2 ^ 31" by (metis of_nat_less_iff of_nat_numeral of_nat_power)
qed

lemma to_int_small: "n < 2 ^ 31 \<Longrightarrow> to_int (int n) = int n"
  by (rule to_int_id) (simp_all add: of_nat_less_numeral_power_cancel_iff)

subsection \<open>The write loop\<close>

lemma loop_arith:
  assumes L: "to_int (int (length data)) = int l" and p: "pos \<le> l"
  shows "to_size_t (int pos) = int pos"
    and "chunk_len data (int pos) = int (min SECTOR_SIZE (l - pos))"
    and "to_int (int pos + chunk_len data (int pos)) = int (pos + min SECTOR_SIZE (l - pos))"
    and "substr data (to_size_t (int pos)) (to_size_t (chunk_len data (int pos))) =
           take SECTOR_SIZE (drop pos (take l data))"
proof -
  have l: "int l < 2 ^ 31" using to_int_length(2) [OF L]
    by (simp add: of_nat_less_numeral_power_cancel_iff)
  have pl: "int pos \<le> int l" using p by simp
  show 1: "to_size_t (int pos) = int pos"
    using l pl by (intro to_size_t_id) simp_all
  have d: "int l - int pos = int (l - pos)" using p by simp
  have "to_int (int l - int pos) = int l - int pos"
    using l pl by (intro to_int_id) simp_all
  then have "chunk_len data (int pos) = min (int SECTOR_SIZE) (int (l - pos))"
    by (simp only: chunk_len_def L d)
  then show 2: "chunk_len data (int pos) = int (min SECTOR_SIZE (l - pos))"
    by (simp only: of_nat_min)
  have le: "pos + min SECTOR_SIZE (l - pos) \<le> l" using p by simp
  then have "int (pos + min SECTOR_SIZE (l - pos)) < 2 ^ 31" using l by linarith
  then have "to_int (int (pos + min SECTOR_SIZE (l - pos))) = int (pos + min SECTOR_SIZE (l - pos))"
    by (intro to_int_id) simp_all
  then show "to_int (int pos + chunk_len data (int pos)) = int (pos + min SECTOR_SIZE (l - pos))"
    by (simp add: 2)
  have "int (min SECTOR_SIZE (l - pos)) < 2 ^ 64" using l by (simp add: SECTOR_SIZE_def)
  then have "to_size_t (int (min SECTOR_SIZE (l - pos))) = int (min SECTOR_SIZE (l - pos))"
    by (intro to_size_t_id) simp_all
  then show "substr data (to_size_t (int pos)) (to_size_t (chunk_len data (int pos))) =
           take SECTOR_SIZE (drop pos (take l data))"
    by (simp add: 1 2 substr_def drop_take min.commute)
qed

lemma loop_inv_le: "loop_inv n l pos ids \<Longrightarrow> pos \<le> l"
proof -
  assume "loop_inv n l pos ids"
  then have "pos = min (SECTOR_SIZE * length ids) l" unfolding loop_inv_def by blast
  then show ?thesis by simp
qed

lemma loop_inv_done:
  assumes "loop_inv n l pos ids" "\<not> pos < n"
  shows "l = n" and "length ids = sectors_needed n"
proof -
  from assms(1) have "l \<le> n" "pos = min (SECTOR_SIZE * length ids) l"
    unfolding loop_inv_def by blast+
  then have "pos \<le> l" "l \<le> n" by simp_all
  moreover from assms(2) have "n \<le> pos" by simp
  ultimately have e: "l = n" "pos = n" by simp_all
  show "l = n" by (rule e)
  from assms(1) e show "length ids = sectors_needed n" unfolding loop_inv_def by blast
qed

lemma sectors_needed_step:
  assumes "pos < n" "pos = SECTOR_SIZE * k"
  shows "sectors_needed (pos + min SECTOR_SIZE (n - pos)) = Suc k"
  using assms by (auto simp: sectors_needed_def SECTOR_SIZE_def min_def)

lemma loop_inv_step:
  assumes inv: "loop_inv n l pos ids" and lt: "pos < n"
  shows "loop_inv n l (pos + min SECTOR_SIZE (l - pos)) (ids @ [k])"
proof -
  from inv have ln: "l \<le> n" and p: "pos = min (SECTOR_SIZE * length ids) l"
    and c: "l = n \<longrightarrow> length ids = sectors_needed pos"
    unfolding loop_inv_def by blast+
  have 1: "pos + min SECTOR_SIZE (l - pos) = min (SECTOR_SIZE * length (ids @ [k])) l"
  proof (cases "SECTOR_SIZE * length ids \<le> l")
    case True
    with p have "pos = SECTOR_SIZE * length ids" by simp
    with True show ?thesis by (simp add: SECTOR_SIZE_def)
  next
    case False
    with p have "pos = l" by simp
    with False show ?thesis by (simp add: SECTOR_SIZE_def)
  qed
  have 2: "length (ids @ [k]) = sectors_needed (pos + min SECTOR_SIZE (l - pos))" if "l = n"
  proof -
    from that lt p have "pos = SECTOR_SIZE * length ids" by (cases "SECTOR_SIZE * length ids \<le> l") simp_all
    from sectors_needed_step [OF lt this] that show ?thesis by simp
  qed
  from ln 1 2 show ?thesis unfolding loop_inv_def by blast
qed

lemma loop_inv_slot:
  assumes "loop_inv (length data) l pos ids"
  shows "take SECTOR_SIZE (drop pos (take l data)) =
         take SECTOR_SIZE (drop (SECTOR_SIZE * length ids) (take l data))"
proof -
  from assms have ln: "l \<le> length data" and p: "pos = min (SECTOR_SIZE * length ids) l"
    unfolding loop_inv_def by blast+
  show ?thesis
  proof (cases "SECTOR_SIZE * length ids \<le> l")
    case True
    with p show ?thesis by (simp add: min_def)
  next
    case False
    with p have "pos = l" by (simp add: min_def)
    with False ln show ?thesis by simp
  qed
qed

lemma loop_inv_short:
  "loop_inv n l pos ids \<Longrightarrow> pos < n \<Longrightarrow> min (SECTOR_SIZE * length ids) l < n"
  unfolding loop_inv_def by blast

lemma loop_inv_init: "to_int (int n) = int l \<Longrightarrow> loop_inv n l 0 []"
  using to_int_length(1) [of n l]
  by (simp add: loop_inv_def sectors_needed_def SECTOR_SIZE_def)

lemma grow_disk_length: "length (grow_disk k d) = max (length d) (Suc k)"
proof (induction k d rule: grow_disk.induct)
  case (1 sector d)
  show ?case
  proof (cases "length d \<le> sector")
    case True
    with "1.IH" show ?thesis by (subst grow_disk.simps) auto
  next
    case False
    then show ?thesis by (subst grow_disk.simps) auto
  qed
qed

lemma grow_disk_nth: "i < length d \<Longrightarrow> grow_disk k d ! i = d ! i"
proof (induction k d rule: grow_disk.induct)
  case (1 sector d)
  show ?case
  proof (cases "length d \<le> sector")
    case True
    with "1.IH" "1.prems" show ?thesis by (subst grow_disk.simps) (auto simp: nth_append)
  next
    case False
    then show ?thesis by (subst grow_disk.simps) auto
  qed
qed

lemma item_store: "a < length (heap s) \<Longrightarrow> item (store a x s) b = (if b = a then Some x else item s b)"
  by (auto simp: item_def store_def)

lemma item_lt: "item s a = Some x \<Longrightarrow> a < length (heap s)"
  by (auto simp: item_def split: if_splits)

lemma freeSectors_Inl: "freeSectors ids s = (Inl e, s1) \<Longrightarrow> \<exists>k. e = InvalidSector k"
  by (induction ids arbitrary: s) (auto simp: freeSector_def split: if_splits prod.splits sum.splits)

lemma freeSectors_Inr:
  "freeSectors ids s = (Inr u, s1) \<Longrightarrow>
     (\<exists>m. s1 = s\<lparr>sectorMap := m\<rparr> \<and> length m = length (sectorMap s) \<and>
        (\<forall>sector \<in> set ids. 0 \<le> sector \<and> nat sector < length m \<and> \<not> m ! nat sector) \<and>
        (\<forall>j < length m. int j \<notin> set ids \<longrightarrow> m ! j = sectorMap s ! j))"
proof (induction ids arbitrary: s)
  case Nil
  then show ?case by (auto intro: exI [of _ "sectorMap s"])
next
  case (Cons sector rest)
  from Cons.prems have range: "0 \<le> sector" "nat sector < length (sectorMap s)"
    and rest: "freeSectors rest (s\<lparr>sectorMap := (sectorMap s)[nat sector := False]\<rparr>) = (Inr u, s1)"
    by (auto simp: freeSector_def split: if_splits)
  let ?s = "s\<lparr>sectorMap := (sectorMap s)[nat sector := False]\<rparr>"
  from Cons.IH [OF rest] obtain m where m: "s1 = ?s\<lparr>sectorMap := m\<rparr>"
    "length m = length (sectorMap ?s)"
    "\<forall>sector \<in> set rest. 0 \<le> sector \<and> nat sector < length m \<and> \<not> m ! nat sector"
    "\<forall>j < length m. int j \<notin> set rest \<longrightarrow> m ! j = sectorMap ?s ! j"
    by blast
  have "\<not> m ! nat sector"
  proof (cases "sector \<in> set rest")
    case True
    with m(3) show ?thesis by blast
  next
    case False
    then have "int (nat sector) \<notin> set rest" using range by simp
    with m(4) m(2) range have "m ! nat sector = sectorMap ?s ! nat sector" by simp
    then show ?thesis using range by simp
  qed
  moreover have "\<forall>j < length m. int j \<notin> set (sector # rest) \<longrightarrow> m ! j = sectorMap s ! j"
  proof (intro allI impI)
    fix j assume j: "j < length m" "int j \<notin> set (sector # rest)"
    then have "j \<noteq> nat sector" using range by auto
    with j m(4) show "m ! j = sectorMap s ! j" by simp
  qed
  ultimately show ?case using m range by (intro exI [of _ m]) auto
qed


lemma written_step:
  assumes w: "written data ids s"
    and k: "0 \<le> k" "nat k < length (sectorMap s)" "\<not> sectorMap s ! nat k"
    and m2: "sectorMap s2 = (sectorMap s)[nat k := True]"
    and d2: "disk s2 = (grow_disk (nat k) (disk s))
               [nat k := take SECTOR_SIZE (drop (SECTOR_SIZE * length ids) data)]"
  shows "written data (ids @ [k]) s2"
proof -
  have old: "0 \<le> ids ! j \<and> nat (ids ! j) < length (sectorMap s) \<and> sectorMap s ! nat (ids ! j) \<and>
         nat (ids ! j) < length (disk s) \<and>
         disk s ! nat (ids ! j) = take SECTOR_SIZE (drop (SECTOR_SIZE * j) data)"
    if "j < length ids" for j
    using w that by (simp add: written_def)
  have neq: "ids ! j \<noteq> k" if "j < length ids" for j
    using old [OF that] k(3) by auto
  then have notin: "k \<notin> set ids" by (auto simp: in_set_conv_nth)
  have dist: "distinct (ids @ [k])" using w notin by (simp add: written_def)
  have len2: "length (disk s2) = max (length (disk s)) (Suc (nat k))"
    by (simp add: d2 grow_disk_length)
  have slot: "0 \<le> (ids @ [k]) ! j \<and> nat ((ids @ [k]) ! j) < length (sectorMap s2) \<and>
         sectorMap s2 ! nat ((ids @ [k]) ! j) \<and>
         nat ((ids @ [k]) ! j) < length (disk s2) \<and>
         disk s2 ! nat ((ids @ [k]) ! j) = take SECTOR_SIZE (drop (SECTOR_SIZE * j) data)"
    if j: "j < length (ids @ [k])" for j
  proof (cases "j < length ids")
    case True
    note o = old [OF True]
    have ne: "nat (ids ! j) \<noteq> nat k" using neq [OF True] o k(1) by auto
    have "disk s2 ! nat (ids ! j) = grow_disk (nat k) (disk s) ! nat (ids ! j)"
      using ne by (simp add: d2)
    also have "\<dots> = disk s ! nat (ids ! j)" using o by (simp add: grow_disk_nth)
    finally have "disk s2 ! nat (ids ! j) = take SECTOR_SIZE (drop (SECTOR_SIZE * j) data)"
      using o by simp
    moreover have "sectorMap s2 ! nat (ids ! j)"
      using o ne by (simp add: m2)
    moreover have "nat (ids ! j) < length (disk s2)" using o len2 by (simp add: less_max_iff_disj)
    ultimately show ?thesis using True o by (simp add: nth_append m2)
  next
    case False
    with j have jl: "j = length ids" by simp
    have "disk s2 ! nat k = take SECTOR_SIZE (drop (SECTOR_SIZE * j) data)"
      using jl by (simp add: d2 grow_disk_length)
    then show ?thesis using jl k len2 by (simp add: m2)
  qed
  from dist slot show ?thesis unfolding written_def by blast
qed


lemma allocateSector_Inl: "allocateSector s = (Inl e, s') \<Longrightarrow>
    e = DiskFull \<and> s' = s \<and> (\<forall>j < length (sectorMap s). sectorMap s ! j)"
  using allocateSector_cases [of s] by auto

lemma allocateSector_Inr: "allocateSector s = (Inr k, s') \<Longrightarrow>
    0 \<le> k \<and> nat k < length (sectorMap s) \<and> \<not> sectorMap s ! nat k \<and>
    (\<forall>j < nat k. sectorMap s ! j) \<and> s' = s\<lparr>sectorMap := (sectorMap s)[nat k := True]\<rparr>"
  using allocateSector_cases [of s] by auto

lemma saveToDisk_loop_result:
  assumes "saveToDisk_loop a data ipos s = (r, s')"
    and "item s a = Some f"
    and "to_int (int (length data)) = int l"
    and "written (take l data) (sectors f) s"
    and "loop_inv (length data) l pos (sectors f)"
    and "ipos = int pos"
  shows "\<exists>ids m d.
      s' = s\<lparr>disk := d, sectorMap := m, heap := (heap s)[a := Some (f\<lparr>sectors := sectors f @ ids\<rparr>)]\<rparr> \<and>
      written (take l data) (sectors f @ ids) s' \<and>
      length m = length (sectorMap s) \<and>
      (\<forall>j < length m. int j \<notin> set ids \<longrightarrow> m ! j = sectorMap s ! j) \<and>
      (\<forall>sector \<in> set ids. 0 \<le> sector \<and> nat sector < length m \<and> \<not> sectorMap s ! nat sector) \<and>
      length (disk s) \<le> length d \<and>
      (\<forall>i < length (disk s). int i \<notin> set ids \<longrightarrow> d ! i = disk s ! i) \<and>
      (case r of
         Inl e \<Rightarrow> e = DiskFull \<and> min (SECTOR_SIZE * length (sectors f @ ids)) l < length data \<and>
                  (\<forall>j < length m. m ! j)
       | Inr u \<Rightarrow> l = length data \<and> length (sectors f @ ids) = sectors_needed (length data))"
  using assms
proof (induction a data ipos s arbitrary: f pos rule: saveToDisk_loop.induct)
  case (1 a data ipos s)
  note res = "1.prems"(1) and f = "1.prems"(2) and L = "1.prems"(3) and w = "1.prems"(4)
    and inv = "1.prems"(5) and ip = "1.prems"(6)
  note ar = loop_arith [OF L loop_inv_le [OF inv]]
  have test: "to_size_t ipos < int (length data) \<longleftrightarrow> pos < length data"
    by (simp add: ip ar(1))
  have lt: "a < length (heap s)" using f by (rule item_lt)
  have sf: "s\<lparr>heap := (heap s)[a := Some f]\<rparr> = s"
    using f lt by (simp add: item_def list_update_same_conv)
  show ?case
  proof (cases "pos < length data")
    case False
    with res test have "r = Inr ()" "s' = s"
      by (simp_all add: saveToDisk_loop.simps [of a data ipos s])
    moreover note loop_inv_done [OF inv False]
    ultimately show ?thesis
      using w sf by (intro exI [of _ "[]"] exI [of _ "sectorMap s"] exI [of _ "disk s"]) simp
  next
    case True
    obtain ra s1 where al: "allocateSector s = (ra, s1)" by (cases "allocateSector s")
    show ?thesis
    proof (cases ra)
      case (Inl e)
      with al allocateSector_Inl [of s e s1]
      have e: "e = DiskFull" "s1 = s" "\<forall>j < length (sectorMap s). sectorMap s ! j" by simp_all
      from res True test al Inl e have "r = Inl DiskFull" "s' = s"
        by (simp_all add: saveToDisk_loop.simps [of a data ipos s])
      moreover note loop_inv_short [OF inv True]
      ultimately show ?thesis
        using w sf e(3)
        by (intro exI [of _ "[]"] exI [of _ "sectorMap s"] exI [of _ "disk s"]) simp
    next
      case (Inr k)
      with al allocateSector_Inr [of s k s1]
      have k: "0 \<le> k" "nat k < length (sectorMap s)" "\<not> sectorMap s ! nat k"
        and s1: "s1 = s\<lparr>sectorMap := (sectorMap s)[nat k := True]\<rparr>" by simp_all
      have f1: "item s1 a = Some f" using f lt by (simp add: s1 item_def)
      let ?len = "min SECTOR_SIZE (l - pos)"
      let ?f4 = "f\<lparr>sectors := sectors f @ [k]\<rparr>"
      let ?s4 = "(store a ?f4 s1)\<lparr>disk := (grow_disk (nat k) (disk s1))
                          [nat k := take SECTOR_SIZE (drop pos (take l data))]\<rparr>"
      have e1: "to_int (ipos + chunk_len data ipos) = int (pos + ?len)"
        using ar(3) by (simp only: ip)
      have e2: "substr data (to_size_t ipos) (to_size_t (chunk_len data ipos)) =
          take SECTOR_SIZE (drop pos (take l data))"
        using ar(4) by (simp only: ip)
      have go: "to_size_t ipos < int (length data)" using True test by simp
      have rec: "saveToDisk_loop a data (int (pos + ?len)) ?s4 = (r, s')"
        using res go al Inr f1
        by (simp add: saveToDisk_loop.simps [of a data ipos s] e1 e2 del: of_nat_add of_nat_min)
      have f4: "item ?s4 a = Some ?f4"
        using lt by (simp add: item_def store_def s1)
      have w4: "written (take l data) (sectors ?f4) ?s4"
        using written_step [OF w k, of ?s4] by (simp add: s1 store_def loop_inv_slot [OF inv])
      have inv4: "loop_inv (length data) l (pos + ?len) (sectors ?f4)"
        using loop_inv_step [OF inv True] by simp
      from "1.IH" [unfolded e1 e2, OF go al [symmetric] Inr f1 rec f4 L w4 inv4 refl]
      obtain ids m d where
        s': "s' = ?s4\<lparr>disk := d, sectorMap := m,
               heap := (heap ?s4)[a := Some (?f4\<lparr>sectors := sectors ?f4 @ ids\<rparr>)]\<rparr>"
        and w': "written (take l data) (sectors ?f4 @ ids) s'"
        and m: "length m = length (sectorMap ?s4)"
          "\<forall>j < length m. int j \<notin> set ids \<longrightarrow> m ! j = sectorMap ?s4 ! j"
          "\<forall>sector \<in> set ids. 0 \<le> sector \<and> nat sector < length m \<and> \<not> sectorMap ?s4 ! nat sector"
        and d: "length (disk ?s4) \<le> length d"
          "\<forall>i < length (disk ?s4). int i \<notin> set ids \<longrightarrow> d ! i = disk ?s4 ! i"
        and r: "case r of
           Inl e \<Rightarrow> e = DiskFull \<and> min (SECTOR_SIZE * length (sectors ?f4 @ ids)) l < length data \<and>
                  (\<forall>j < length m. m ! j)
         | Inr u \<Rightarrow> l = length data \<and> length (sectors ?f4 @ ids) = sectors_needed (length data)"
        by blast
      have 1: "s' = s\<lparr>disk := d, sectorMap := m,
          heap := (heap s)[a := Some (f\<lparr>sectors := sectors f @ (k # ids)\<rparr>)]\<rparr>"
        using s' by (simp add: store_def s1)
      have 2: "written (take l data) (sectors f @ (k # ids)) s'" using w' by simp
      have 3: "length m = length (sectorMap s)" using m(1) by (simp add: store_def s1)
      have 4: "\<forall>j < length m. int j \<notin> set (k # ids) \<longrightarrow> m ! j = sectorMap s ! j"
      proof (intro allI impI)
        fix j assume j: "j < length m" "int j \<notin> set (k # ids)"
        then have "j \<noteq> nat k" using k(1) by auto
        with j m(2) show "m ! j = sectorMap s ! j" by (simp add: store_def s1)
      qed
      have 5: "\<forall>sector \<in> set (k # ids). 0 \<le> sector \<and> nat sector < length m \<and> \<not> sectorMap s ! nat sector"
      proof
        fix sector assume "sector \<in> set (k # ids)"
        then consider "sector = k" | "sector \<in> set ids" by auto
        then show "0 \<le> sector \<and> nat sector < length m \<and> \<not> sectorMap s ! nat sector"
        proof cases
          case 1
          then show ?thesis using k 3 by simp
        next
          case 2
          with m(3) have a: "0 \<le> sector" "nat sector < length m" "\<not> sectorMap ?s4 ! nat sector"
            by auto
          have "nat sector \<noteq> nat k"
          proof
            assume "nat sector = nat k"
            with a(3) k(2) show False by (simp add: store_def s1)
          qed
          with a show ?thesis by (simp add: store_def s1)
        qed
      qed
      have 6: "length (disk s) \<le> length d"
        using d(1) by (simp add: store_def s1 grow_disk_length)
      have 7: "\<forall>i < length (disk s). int i \<notin> set (k # ids) \<longrightarrow> d ! i = disk s ! i"
      proof (intro allI impI)
        fix i assume i: "i < length (disk s)" "int i \<notin> set (k # ids)"
        then have ne: "i \<noteq> nat k" using k(1) by auto
        have "i < length (disk ?s4)" using i(1) by (simp add: store_def s1 grow_disk_length)
        with d(2) i(2) have "d ! i = disk ?s4 ! i" by simp
        also have "\<dots> = disk s ! i" using ne i(1) by (simp add: store_def s1 grow_disk_nth)
        finally show "d ! i = disk s ! i" .
      qed
      have 8: "case r of
           Inl e \<Rightarrow> e = DiskFull \<and> min (SECTOR_SIZE * length (sectors f @ (k # ids))) l < length data \<and>
                  (\<forall>j < length m. m ! j)
         | Inr u \<Rightarrow> l = length data \<and> length (sectors f @ (k # ids)) = sectors_needed (length data)"
        using r by (simp split: sum.splits)
      from 1 2 3 4 5 6 7 8 show ?thesis by blast
    qed
  qed
qed


lemma written_butlast: "written data (ids @ [k]) s \<Longrightarrow> written data ids s"
proof -
  assume w: "written data (ids @ [k]) s"
  have "(ids @ [k]) ! j = ids ! j" if "j < length ids" for j using that by (simp add: nth_append)
  with w show ?thesis unfolding written_def
    by (metis distinct_append length_append_singleton less_SucI)
qed

lemma written_last:
  "written data (ids @ [k]) s \<Longrightarrow>
     disk s ! nat k = take SECTOR_SIZE (drop (SECTOR_SIZE * length ids) data)"
  unfolding written_def by (metis length_append_singleton lessI nth_append_length)

lemma written_read_back:
  "written data ids s \<Longrightarrow> read_back s ids = take (SECTOR_SIZE * length ids) data"
proof (induction ids rule: rev_induct)
  case Nil
  show ?case by (simp add: read_back_def)
next
  case (snoc k ids)
  have "read_back s (ids @ [k]) = read_back s ids @ disk s ! nat k"
    by (simp add: read_back_def)
  also have "\<dots> = take (SECTOR_SIZE * length ids) data @
      take SECTOR_SIZE (drop (SECTOR_SIZE * length ids) data)"
    using snoc.IH [OF written_butlast [OF snoc.prems]] written_last [OF snoc.prems] by simp
  also have "\<dots> = take (SECTOR_SIZE * length ids + SECTOR_SIZE) data"
    by (simp add: take_add)
  finally show ?case by (simp add: add.commute)
qed

lemma sectors_needed_gt: "SECTOR_SIZE * k < n \<Longrightarrow> k < sectors_needed n"
  by (simp add: sectors_needed_def SECTOR_SIZE_def)

lemma saveToDisk_file_result:
  assumes res: "saveToDisk (Some a) s = (r, s')"
    and f: "item s a = Some f" and nf: "\<not> isFolder f"
    and L: "to_int (int (length (content f))) = int l"
  shows "(\<exists>k. r = Inl (InvalidSector k) \<and> fst (freeSectors (sectors f) s) = Inl (InvalidSector k)) \<or>
     (\<exists>s1 m1 ids m d.
        freeSectors (sectors f) s = (Inr (), s1) \<and> s1 = s\<lparr>sectorMap := m1\<rparr> \<and>
        s' = s\<lparr>disk := d, sectorMap := m, heap := (heap s)[a := Some (f\<lparr>sectors := ids\<rparr>)]\<rparr> \<and>
        written (take l (content f)) ids s' \<and>
        length m1 = length (sectorMap s) \<and> length m = length (sectorMap s) \<and>
        (\<forall>sector \<in> set (sectors f). 0 \<le> sector \<and> nat sector < length m1 \<and> \<not> m1 ! nat sector) \<and>
        (\<forall>j < length m1. int j \<notin> set (sectors f) \<longrightarrow> m1 ! j = sectorMap s ! j) \<and>
        (\<forall>j < length m. int j \<notin> set ids \<longrightarrow> m ! j = m1 ! j) \<and>
        (\<forall>sector \<in> set ids. 0 \<le> sector \<and> nat sector < length m \<and> \<not> m1 ! nat sector) \<and>
        length (disk s) \<le> length d \<and>
        (\<forall>i < length (disk s). int i \<notin> set ids \<longrightarrow> d ! i = disk s ! i) \<and>
        (case r of
           Inl e \<Rightarrow> e = DiskFull \<and> min (SECTOR_SIZE * length ids) l < length (content f) \<and>
                    (\<forall>j < length m. m ! j)
         | Inr u \<Rightarrow> l = length (content f) \<and> length ids = sectors_needed (length (content f))))"
proof -
  have lt: "a < length (heap s)" using f by (rule item_lt)
  obtain rf s1 where fr: "freeSectors (sectors f) s = (rf, s1)" by (cases "freeSectors (sectors f) s")
  show ?thesis
  proof (cases rf)
    case (Inl e)
    with fr freeSectors_Inl [of "sectors f" s e s1] obtain k where "e = InvalidSector k" by auto
    with res f nf fr Inl have "r = Inl (InvalidSector k)" by (simp add: saveToDisk_def)
    moreover have "fst (freeSectors (sectors f) s) = Inl (InvalidSector k)"
      using fr Inl \<open>e = InvalidSector k\<close> by simp
    ultimately show ?thesis by blast
  next
    case (Inr u)
    with fr freeSectors_Inr [of "sectors f" s u s1] obtain m1 where
      s1: "s1 = s\<lparr>sectorMap := m1\<rparr>" and m1: "length m1 = length (sectorMap s)"
      "\<forall>sector \<in> set (sectors f). 0 \<le> sector \<and> nat sector < length m1 \<and> \<not> m1 ! nat sector"
      "\<forall>j < length m1. int j \<notin> set (sectors f) \<longrightarrow> m1 ! j = sectorMap s ! j"
      by blast
    let ?f0 = "f\<lparr>sectors := []\<rparr>"
    let ?s2 = "store a ?f0 s1"
    have loop: "saveToDisk_loop a (content ?f0) 0 ?s2 = (r, s')"
      using res f nf fr Inr by (simp add: saveToDisk_def)
    have f2: "item ?s2 a = Some ?f0" using lt by (simp add: item_def store_def s1)
    have L2: "to_int (int (length (content ?f0))) = int l" using L by simp
    have w2: "written (take l (content ?f0)) (sectors ?f0) ?s2" by (simp add: written_def)
    have inv2: "loop_inv (length (content ?f0)) l 0 (sectors ?f0)"
      using loop_inv_init [OF L2] by simp
    have z: "(0::int) = int 0" by simp
    from saveToDisk_loop_result [OF loop f2 L2 w2 inv2 z] obtain ids m d where
      s': "s' = ?s2\<lparr>disk := d, sectorMap := m,
             heap := (heap ?s2)[a := Some (?f0\<lparr>sectors := sectors ?f0 @ ids\<rparr>)]\<rparr>"
      and w': "written (take l (content ?f0)) (sectors ?f0 @ ids) s'"
      and m: "length m = length (sectorMap ?s2)"
        "\<forall>j < length m. int j \<notin> set ids \<longrightarrow> m ! j = sectorMap ?s2 ! j"
        "\<forall>sector \<in> set ids. 0 \<le> sector \<and> nat sector < length m \<and> \<not> sectorMap ?s2 ! nat sector"
      and d: "length (disk ?s2) \<le> length d"
        "\<forall>i < length (disk ?s2). int i \<notin> set ids \<longrightarrow> d ! i = disk ?s2 ! i"
      and r: "case r of
           Inl e \<Rightarrow> e = DiskFull \<and> min (SECTOR_SIZE * length (sectors ?f0 @ ids)) l < length (content ?f0) \<and>
                  (\<forall>j < length m. m ! j)
         | Inr u \<Rightarrow> l = length (content ?f0) \<and> length (sectors ?f0 @ ids) = sectors_needed (length (content ?f0))"
      by blast
    have 1: "s' = s\<lparr>disk := d, sectorMap := m, heap := (heap s)[a := Some (f\<lparr>sectors := ids\<rparr>)]\<rparr>"
      using s' by (simp add: store_def s1)
    have 2: "written (take l (content f)) ids s'" using w' by simp
    have 3: "length m = length (sectorMap s)" using m(1) m1(1) by (simp add: store_def s1)
    have 4: "\<forall>j < length m. int j \<notin> set ids \<longrightarrow> m ! j = m1 ! j"
      using m(2) by (simp add: store_def s1)
    have 5: "\<forall>sector \<in> set ids. 0 \<le> sector \<and> nat sector < length m \<and> \<not> m1 ! nat sector"
      using m(3) by (simp add: store_def s1)
    have 6: "length (disk s) \<le> length d" using d(1) by (simp add: store_def s1)
    have 7: "\<forall>i < length (disk s). int i \<notin> set ids \<longrightarrow> d ! i = disk s ! i"
      using d(2) by (simp add: store_def s1)
    have 8: "case r of
           Inl e \<Rightarrow> e = DiskFull \<and> min (SECTOR_SIZE * length ids) l < length (content f) \<and>
                    (\<forall>j < length m. m ! j)
         | Inr u \<Rightarrow> l = length (content f) \<and> length ids = sectors_needed (length (content f))"
      using r by (simp split: sum.splits)
    have 0: "freeSectors (sectors f) s = (Inr (), s1)" using fr Inr by simp
    from 0 s1 1 2 m1 3 4 5 6 7 8 show ?thesis by blast
  qed
qed

lemma to_size_t_negative:
  assumes "i < 0" "- (2 ^ 31) \<le> i"
  shows "to_size_t i = i + 2 ^ 64"
proof -
  have "(i + 2 ^ 64) mod 2 ^ 64 = i + 2 ^ 64"
    using assms by (intro mod_pos_pos_trivial) simp_all
  then show ?thesis by (simp add: to_size_t_def)
qed

lemma to_int_idem: "to_int (to_int i) = to_int i"
  using to_int_range [of i] by (intro to_int_id) simp_all

lemma chunk_len_negative:
  assumes "to_int (int (length data)) < 0"
  shows "chunk_len data 0 = to_int (int (length data))"
    and "to_int (0 + chunk_len data 0) = to_int (int (length data))"
proof -
  have i: "to_int (to_int (int (length data))) = to_int (int (length data))"
    using to_int_range [of "int (length data)"] by (intro to_int_id) simp_all
  show c: "chunk_len data 0 = to_int (int (length data))"
    using assms by (simp add: chunk_len_def i SECTOR_SIZE_def)
  show "to_int (0 + chunk_len data 0) = to_int (int (length data))"
    by (simp add: c i)
qed

lemma saveToDisk_loop_negative:
  assumes res: "saveToDisk_loop a data 0 s = (Inl e, s')" and f: "item s a = Some f"
    and neg: "to_int (int (length data)) < 0" and size: "length data < 2 ^ 63"
  shows "e = DiskFull \<and> s' = s \<and> (\<forall>j < length (sectorMap s). sectorMap s ! j)"
proof -
  let ?L = "to_int (int (length data))"
  have n: "int (length data) < 2 ^ 63" using size
    by (simp add: of_nat_less_numeral_power_cancel_iff)
  have "length data \<noteq> 0" using neg by (auto simp: to_int_def)
  then have go: "to_size_t 0 < int (length data)" by (simp add: to_size_t_def)
  have "to_size_t ?L = ?L + 2 ^ 64"
    using neg to_int_range [of "int (length data)"] by (intro to_size_t_negative) simp_all
  moreover have "- (2 ^ 31) \<le> ?L" using to_int_range [of "int (length data)"] by simp
  ultimately have stop: "\<not> to_size_t ?L < int (length data)" using n by simp
  have fin: "saveToDisk_loop a data ?L t = (Inr (), t)" for t
    using stop by (simp add: saveToDisk_loop.simps [of a data ?L t])
  obtain ra s1 where al: "allocateSector s = (ra, s1)" by (cases "allocateSector s")
  show ?thesis
  proof (cases ra)
    case (Inl e1)
    with al allocateSector_Inl [of s e1 s1]
    have "e1 = DiskFull" "s1 = s" "\<forall>j < length (sectorMap s). sectorMap s ! j" by simp_all
    with res go al Inl show ?thesis by (simp add: saveToDisk_loop.simps [of a data 0 s])
  next
    case (Inr k)
    with al allocateSector_Inr [of s k s1]
    have s1: "s1 = s\<lparr>sectorMap := (sectorMap s)[nat k := True]\<rparr>" by simp
    have f1: "item s1 a = Some f" using f item_lt [OF f] by (simp add: s1 item_def)
    from res go al Inr f1 have False
      by (simp add: saveToDisk_loop.simps [of a data 0 s] chunk_len_negative [OF neg] to_int_idem fin)
    then show ?thesis ..
  qed
qed

lemma saveToDisk_file_DiskFull:
  assumes res: "saveToDisk (Some a) s = (Inl DiskFull, s')"
    and f: "item s a = Some f" and nf: "\<not> isFolder f"
    and size: "length (content f) < 2 ^ 63"
  shows "\<exists>s1 m1 ids m d l.
        freeSectors (sectors f) s = (Inr (), s1) \<and> s1 = s\<lparr>sectorMap := m1\<rparr> \<and>
        s' = s\<lparr>disk := d, sectorMap := m, heap := (heap s)[a := Some (f\<lparr>sectors := ids\<rparr>)]\<rparr> \<and>
        written (take l (content f)) ids s' \<and>
        l \<le> length (content f) \<and>
        (length (content f) < 2 ^ 31 \<longrightarrow> l = length (content f)) \<and>
        length m1 = length (sectorMap s) \<and> length m = length (sectorMap s) \<and>
        (\<forall>sector \<in> set (sectors f). 0 \<le> sector \<and> nat sector < length m1 \<and> \<not> m1 ! nat sector) \<and>
        (\<forall>j < length m1. int j \<notin> set (sectors f) \<longrightarrow> m1 ! j = sectorMap s ! j) \<and>
        (\<forall>j < length m. int j \<notin> set ids \<longrightarrow> m ! j = m1 ! j) \<and>
        min (SECTOR_SIZE * length ids) l < length (content f) \<and>
        (\<forall>j < length m. m ! j)"
proof (cases "0 \<le> to_int (int (length (content f)))")
  case True
  then obtain l where L: "to_int (int (length (content f))) = int l"
    using nonneg_int_cases by metis
  have small: "l = length (content f)" if "length (content f) < 2 ^ 31"
    using to_int_small [OF that] L by simp
  from saveToDisk_file_result [OF res f nf L] obtain s1 m1 ids m d where
    "freeSectors (sectors f) s = (Inr (), s1)" "s1 = s\<lparr>sectorMap := m1\<rparr>"
    "s' = s\<lparr>disk := d, sectorMap := m, heap := (heap s)[a := Some (f\<lparr>sectors := ids\<rparr>)]\<rparr>"
    "written (take l (content f)) ids s'"
    "length m1 = length (sectorMap s)" "length m = length (sectorMap s)"
    "\<forall>sector \<in> set (sectors f). 0 \<le> sector \<and> nat sector < length m1 \<and> \<not> m1 ! nat sector"
    "\<forall>j < length m1. int j \<notin> set (sectors f) \<longrightarrow> m1 ! j = sectorMap s ! j"
    "\<forall>j < length m. int j \<notin> set ids \<longrightarrow> m ! j = m1 ! j"
    "min (SECTOR_SIZE * length ids) l < length (content f)"
    "\<forall>j < length m. m ! j"
    by auto
  with to_int_length(1) [OF L] small show ?thesis by blast
next
  case False
  then have neg: "to_int (int (length (content f))) < 0" by simp
  have big: "\<not> length (content f) < 2 ^ 31"
  proof
    assume "length (content f) < 2 ^ 31"
    from to_int_small [OF this] neg show False by simp
  qed
  have lt: "a < length (heap s)" using f by (rule item_lt)
  obtain rf s1 where fr: "freeSectors (sectors f) s = (rf, s1)" by (cases "freeSectors (sectors f) s")
  show ?thesis
  proof (cases rf)
    case (Inl e)
    with fr freeSectors_Inl [of "sectors f" s e s1] obtain k where "e = InvalidSector k" by auto
    with res f nf fr Inl show ?thesis by (simp add: saveToDisk_def)
  next
    case (Inr u)
    with fr freeSectors_Inr [of "sectors f" s u s1] obtain m1 where
      s1: "s1 = s\<lparr>sectorMap := m1\<rparr>" and m1: "length m1 = length (sectorMap s)"
      "\<forall>sector \<in> set (sectors f). 0 \<le> sector \<and> nat sector < length m1 \<and> \<not> m1 ! nat sector"
      "\<forall>j < length m1. int j \<notin> set (sectors f) \<longrightarrow> m1 ! j = sectorMap s ! j"
      by blast
    let ?f0 = "f\<lparr>sectors := []\<rparr>"
    let ?s2 = "store a ?f0 s1"
    have loop: "saveToDisk_loop a (content ?f0) 0 ?s2 = (Inl DiskFull, s')"
      using res f nf fr Inr by (simp add: saveToDisk_def)
    have f2: "item ?s2 a = Some ?f0" using lt by (simp add: item_def store_def s1)
    have neg2: "to_int (int (length (content ?f0))) < 0" using neg by simp
    have size2: "length (content ?f0) < 2 ^ 63" using size by simp
    from saveToDisk_loop_negative [OF loop f2 neg2 size2]
    have s': "s' = ?s2" and full: "\<forall>j < length (sectorMap ?s2). sectorMap ?s2 ! j" by simp_all
    have 0: "freeSectors (sectors f) s = (Inr (), s1)" using fr Inr by simp
    have 1: "s' = s\<lparr>disk := disk s, sectorMap := m1, heap := (heap s)[a := Some (f\<lparr>sectors := []\<rparr>)]\<rparr>"
      by (simp add: s' store_def s1)
    have 2: "written (take 0 (content f)) [] s'" by (simp add: written_def)
    have 3: "\<forall>j < length m1. m1 ! j" using full by (simp add: store_def s1)
    have 4: "min (SECTOR_SIZE * length ([]::int list)) 0 < length (content f)"
      using big by (cases "content f") simp_all
    have 5: "\<forall>j < length m1. int j \<notin> set ([]::int list) \<longrightarrow> m1 ! j = m1 ! j" by simp
    have 6: "(0::nat) \<le> length (content f)" by simp
    from 0 s1 1 2 6 big m1 3 4 5 show ?thesis by blast
  qed
qed

text \<open>
  Claim C9. The content rewrite is not transactional. Whenever \<^verbatim>\<open>saveToDisk\<close> on a file
  ends with \<open>DiskFull\<close> (the content being a \<^verbatim>\<open>std::string\<close>, which holds fewer than \<open>2 ^ 63\<close>
  bytes): the previous sectors of the node had all been freed; the node keeps its content
  field and lists exactly the sectors \<open>ids\<close> claimed by this write, which are distinct,
  still marked allocated, and hold the chunks written before the failure: the chunks of
  the first \<open>l\<close> bytes of the content, which together are a prefix of the content that is
  shorter than the content, so the disk and the sector list disagree with the content field.
  For a content shorter than \<open>2 ^ 31\<close> bytes \<open>l\<close> is its length: the sectors hold the first
  \<open>length ids\<close> chunks of the content and are fewer than the content needs. (From \<open>2 ^ 31\<close>
  bytes on, \<^verbatim>\<open>(int)data.length()\<close> is not the length; the write then fails only before it
  has claimed a sector, or after it has written the chunks of the first \<open>l\<close> bytes and any
  number of empty ones.) At that point the whole bitmap is allocated: every id outside
  \<open>ids\<close> was allocated before, and the freed sectors have been claimed again.
\<close>

theorem saveToDisk_DiskFull_partial:
  assumes f: "item s a = Some f" and nf: "\<not> isFolder f"
    and size: "length (content f) < 2 ^ 63"
    and res: "saveToDisk (Some a) s = (Inl DiskFull, s')"
  shows "\<exists>ids l.
      heap s' = (heap s)[a := Some (f\<lparr>sectors := ids\<rparr>)] \<and>
      l \<le> length (content f) \<and>
      written (take l (content f)) ids s' \<and>
      read_back s' ids = take (min (SECTOR_SIZE * length ids) l) (content f) \<and>
      min (SECTOR_SIZE * length ids) l < length (content f) \<and>
      read_back s' ids \<noteq> content f \<and>
      (length (content f) < 2 ^ 31 \<longrightarrow>
         written (content f) ids s' \<and>
         length ids < sectors_needed (length (content f)) \<and>
         read_back s' ids = take (SECTOR_SIZE * length ids) (content f)) \<and>
      fst (freeSectors (sectors f) s) = Inr () \<and>
      length (sectorMap s') = length (sectorMap s) \<and>
      (\<forall>j < length (sectorMap s'). sectorMap s' ! j) \<and>
      (\<forall>j < length (sectorMap s). int j \<notin> set ids \<longrightarrow> sectorMap s ! j) \<and>
      set (sectors f) \<subseteq> set ids"
proof -
  from saveToDisk_file_DiskFull [OF res f nf size] obtain s1 m1 ids m d l where
    fr: "freeSectors (sectors f) s = (Inr (), s1)"
    and s': "s' = s\<lparr>disk := d, sectorMap := m, heap := (heap s)[a := Some (f\<lparr>sectors := ids\<rparr>)]\<rparr>"
    and w: "written (take l (content f)) ids s'"
    and l: "l \<le> length (content f)"
    and small: "length (content f) < 2 ^ 31 \<longrightarrow> l = length (content f)"
    and len: "length m1 = length (sectorMap s)" "length m = length (sectorMap s)"
    and m1: "\<forall>sector \<in> set (sectors f). 0 \<le> sector \<and> nat sector < length m1 \<and> \<not> m1 ! nat sector"
      "\<forall>j < length m1. int j \<notin> set (sectors f) \<longrightarrow> m1 ! j = sectorMap s ! j"
    and m: "\<forall>j < length m. int j \<notin> set ids \<longrightarrow> m ! j = m1 ! j"
    and short: "min (SECTOR_SIZE * length ids) l < length (content f)"
    and full: "\<forall>j < length m. m ! j"
    by blast
  have "read_back s' ids = take (SECTOR_SIZE * length ids) (take l (content f))"
    using w by (rule written_read_back)
  then have rb: "read_back s' ids = take (min (SECTOR_SIZE * length ids) l) (content f)"
    by simp
  have "length (read_back s' ids) < length (content f)"
    using short by (simp add: rb)
  then have ne: "read_back s' ids \<noteq> content f" by auto
  have bounded: "written (content f) ids s' \<and>
         length ids < sectors_needed (length (content f)) \<and>
         read_back s' ids = take (SECTOR_SIZE * length ids) (content f)"
    if "length (content f) < 2 ^ 31"
  proof -
    from that small have e: "l = length (content f)" by simp
    with short have lt: "SECTOR_SIZE * length ids < length (content f)" by simp
    from w e have "written (content f) ids s'" by simp
    moreover from rb e lt have "read_back s' ids = take (SECTOR_SIZE * length ids) (content f)"
      by simp
    ultimately show ?thesis using sectors_needed_gt [OF lt] by blast
  qed
  have old: "set (sectors f) \<subseteq> set ids"
  proof
    fix sector assume o: "sector \<in> set (sectors f)"
    with m1(1) have r: "0 \<le> sector" "nat sector < length m1" "\<not> m1 ! nat sector" by auto
    show "sector \<in> set ids"
    proof (rule ccontr)
      assume "sector \<notin> set ids"
      then have "int (nat sector) \<notin> set ids" using r(1) by simp
      with m r(2) len have "m ! nat sector = m1 ! nat sector" by simp
      with full r len show False by simp
    qed
  qed
  have before: "\<forall>j < length (sectorMap s). int j \<notin> set ids \<longrightarrow> sectorMap s ! j"
  proof (intro allI impI)
    fix j assume j: "j < length (sectorMap s)" "int j \<notin> set ids"
    then have "int j \<notin> set (sectors f)" using old by auto
    with m1(2) j(1) len have "m1 ! j = sectorMap s ! j" by simp
    moreover have "m ! j = m1 ! j" using m j len by simp
    ultimately show "sectorMap s ! j" using full j(1) len by simp
  qed
  have "heap s' = (heap s)[a := Some (f\<lparr>sectors := ids\<rparr>)]" by (simp add: s')
  moreover have "length (sectorMap s') = length (sectorMap s)" by (simp add: s' len)
  moreover have "\<forall>j < length (sectorMap s'). sectorMap s' ! j" using full by (simp add: s')
  moreover have "fst (freeSectors (sectors f) s) = Inr ()" by (simp add: fr)
  ultimately show ?thesis
    using w l rb short ne bounded before old by blast
qed

theorem saveToDisk_DiskFull_partial_witness:
  "item fs_rewrite 1 = Some file_130 \<and> \<not> isFolder file_130 \<and>
   length (content file_130) = 130 \<and>
   saveToDisk (Some 1) fs_rewrite =
     (Inl DiskFull,
      fs_rewrite\<lparr>disk := [replicate 64 CHR ''x'', replicate 64 CHR ''x''],
        sectorMap := [True, True],
        heap := (heap fs_rewrite)[1 := Some (file_130\<lparr>sectors := [0, 1]\<rparr>)]\<rparr>) \<and>
   (\<exists>ids. written (content file_130) ids
       (fs_rewrite\<lparr>disk := [replicate 64 CHR ''x'', replicate 64 CHR ''x''],
          sectorMap := [True, True],
          heap := (heap fs_rewrite)[1 := Some (file_130\<lparr>sectors := [0, 1]\<rparr>)]\<rparr>) \<and>
      length ids < sectors_needed (length (content file_130)) \<and>
      set (sectors file_130) \<subseteq> set ids)"
proof -
  have f: "item fs_rewrite 1 = Some file_130" by code_simp
  have nf: "\<not> isFolder file_130" by code_simp
  have n: "length (content file_130) = 130" by code_simp
  have size: "length (content file_130) < 2 ^ 63" by (simp add: n)
  have small: "length (content file_130) < 2 ^ 31" by (simp add: n)
  have res: "saveToDisk (Some 1) fs_rewrite =
     (Inl DiskFull,
      fs_rewrite\<lparr>disk := [replicate 64 CHR ''x'', replicate 64 CHR ''x''],
        sectorMap := [True, True],
        heap := (heap fs_rewrite)[1 := Some (file_130\<lparr>sectors := [0, 1]\<rparr>)]\<rparr>)"
    by code_simp
  from saveToDisk_DiskFull_partial [OF f nf size res] small f nf n res show ?thesis by blast
qed

section \<open>Dot segments in \<^verbatim>\<open>mkdir\<close>\<close>








section \<open>Where the code departs from the specification\<close>

text \<open>
  Claim C1 (the allocation invariant: a sector id is marked allocated exactly when one
  file reachable from the root lists it) fails after a \<^verbatim>\<open>cp\<close> that runs out of sectors.
  On a disk of three sectors, \<^verbatim>\<open>put a .\<close> with 128 bytes succeeds and takes sectors 0 and 1;
  \<^verbatim>\<open>cp a b\<close> then reports \<open>DiskFull\<close> after \<^verbatim>\<open>copyItem\<close> has claimed sector 2 for the copy.
  The exception leaves \<^verbatim>\<open>cp\<close> before the copy is pushed into a \<^verbatim>\<open>children\<close> list: sector 2
  stays allocated, and the only file of the tree is the original, which owns 0 and 1.
\<close>

theorem cp_DiskFull_orphans_sector:
  "fst (put ''a'' (Some (replicate 128 CHR ''x'')) ''.'' (FileSystem_new 3)) = None \<and>
   cp 3 ''a'' ''b'' fs_put_a = Some (Some DiskFull, fs_cp_failed) \<and>
   sectorMap fs_cp_failed ! 2 \<and>
   collectAllFiles 3 fs_cp_failed (root fs_cp_failed) [] = Some (Inr [1]) \<and>
   map_option sectors (item fs_cp_failed 1) = Some [0, 1]"
  by code_simp

text \<open>
  Claim C2 (a directory cannot be moved into its own subtree) fails when the destination
  does not exist yet. After \<^verbatim>\<open>mkdir d\<close>, \<^verbatim>\<open>mv d d/x\<close> finds no node \<^verbatim>\<open>d/x\<close>, so the ancestor
  walk has nothing to walk; the rename branch then resolves the destination directory
  \<^verbatim>\<open>d\<close>, which is the source itself, takes \<^verbatim>\<open>d\<close> out of the root and makes it its own
  parent and child under the name \<^verbatim>\<open>x\<close>. \<^verbatim>\<open>mv / x\<close> does the same to the root. Both calls
  report success.
\<close>

theorem mv_into_own_subtree:
  "fst (mkdir ''d'' (FileSystem_new 4)) = None \<and>
   getItem ''d'' fs_d = Inr (Some 1) \<and>
   map_option isFolder (item fs_d 1) = Some True \<and>
   getItem (fst (split_dest ''d/x'')) fs_d = Inr (Some 1) \<and>
   mv 1 ''d'' ''d/x'' fs_d = Some (None, fs_d_cycle) \<and>
   map_option parent (item fs_d_cycle 1) = Some (Some 1) \<and>
   map_option children (item fs_d_cycle 1) = Some [1] \<and>
   mv 1 ''/'' ''x'' (FileSystem_new 4) =
     Some (None, (FileSystem_new 4)\<lparr>heap := [Some (new_Item\<lparr>isFolder := True, name := ''x'',
        children := [0], parent := Some 0\<rparr>)]\<rparr>)"
  by code_simp

text \<open>
  Claim C5 (recursive \<^verbatim>\<open>rm\<close> succeeds and frees the sectors of the subtree) fails for
  every directory that has a child. After \<^verbatim>\<open>mkdir d/e\<close>, \<^verbatim>\<open>rm -r d\<close> runs \<^verbatim>\<open>deleteTree\<close> on
  \<^verbatim>\<open>d\<close>: its first loop deletes the child \<^verbatim>\<open>e\<close> and leaves the pointer in \<^verbatim>\<open>d->children\<close>;
  \<^verbatim>\<open>freeSectorsRecursive(d)\<close> then follows that pointer into the deleted object. With
  any recursion depth that suffices, the result is the memory fault.
\<close>

theorem rm_recursive_use_after_free:
  "fst (mkdir ''d/e'' (FileSystem_new 2)) = None \<and>
   map_option fst (rm 3 ''d'' True fs_d_e) = Some (Some MemoryFault) \<and>
   map_option fst (rm 2 ''d'' True fs_d_e) = Some (Some MemoryFault) \<and>
   rm 1 ''d'' True fs_d_e = None \<and>
   map_option fst (deleteTree_children 2 [2] fs_d_e) = Some (Inr ()) \<and>
   map_option (\<lambda>r. item (snd r) 2) (deleteTree_children 2 [2] fs_d_e) = Some None \<and>
   map_option (\<lambda>r. map_option children (item (snd r) 1)) (deleteTree_children 2 [2] fs_d_e) = Some (Some [2])"
  by code_simp

section \<open>Sector counts\<close>

subsection \<open>The invariant and the store\<close>

lemma closed_iff:
  "closed G s \<longleftrightarrow>
     root s \<in> G \<and> currentDir s \<in> G \<and> (\<forall>a \<in> G. a < length (heap s)) \<and>
     (\<forall>a \<in> G. \<forall>x. item s a = Some x \<longrightarrow> node_ok G x)"
  unfolding closed_def by (auto split: option.splits)

lemma closed_item: "closed G s \<Longrightarrow> a \<in> G \<Longrightarrow> item s a = Some x \<Longrightarrow> node_ok G x"
  unfolding closed_iff by blast

lemma closed_item_ok: "closed G s \<Longrightarrow> a \<in> G \<Longrightarrow> item s a = Some x \<Longrightarrow> item_ok x"
  using closed_item [of G s a x] by (simp add: node_ok_def)

lemma closed_children: "closed G s \<Longrightarrow> a \<in> G \<Longrightarrow> item s a = Some x \<Longrightarrow> set (children x) \<subseteq> G"
  using closed_item [of G s a x] by (simp add: node_ok_def)

lemma closed_parent: "closed G s \<Longrightarrow> a \<in> G \<Longrightarrow> item s a = Some x \<Longrightarrow> parent x = Some p \<Longrightarrow> p \<in> G"
  using closed_item [of G s a x] by (simp add: node_ok_def)

lemma closed_root: "closed G s \<Longrightarrow> root s \<in> G"
  and closed_currentDir: "closed G s \<Longrightarrow> currentDir s \<in> G"
  and closed_lt: "closed G s \<Longrightarrow> a \<in> G \<Longrightarrow> a < length (heap s)"
  unfolding closed_iff by auto

lemma closed_cong:
  "root s' = root s \<Longrightarrow> currentDir s' = currentDir s \<Longrightarrow> heap s' = heap s \<Longrightarrow>
     closed G s' = closed G s"
  by (simp add: closed_def item_def)

lemma item_upd [simp]:
  "item (s\<lparr>sectorMap := m\<rparr>) a = item s a"
  "item (s\<lparr>disk := d\<rparr>) a = item s a"
  "item (s\<lparr>currentDir := c\<rparr>) a = item s a"
  by (simp_all add: item_def)

lemma closed_upd [simp]:
  "closed G (s\<lparr>sectorMap := m\<rparr>) = closed G s"
  "closed G (s\<lparr>disk := d\<rparr>) = closed G s"
  by (simp_all add: closed_def item_def)

lemma closed_cd: "closed G s \<Longrightarrow> c \<in> G \<Longrightarrow> closed G (s\<lparr>currentDir := c\<rparr>)"
  by (simp add: closed_iff)

lemma item_store': "item (store a x s) b = (if b = a \<and> a < length (heap s) then Some x else item s b)"
  by (auto simp: item_def store_def)

lemma closed_store:
  assumes "closed G s" and "a \<in> G \<Longrightarrow> node_ok G x"
  shows "closed G (store a x s)"
  using assms unfolding closed_iff
  by (auto simp: item_store' split: if_splits) (simp_all add: store_def)

lemma closed_store_out: "closed G s \<Longrightarrow> a \<notin> G \<Longrightarrow> closed G (store a x s)"
  by (rule closed_store) simp_all

lemma item_delete: "item (delete a s) b = (if b = a then None else item s b)"
  by (auto simp: item_def delete_def)

lemma closed_delete: "closed G s \<Longrightarrow> closed G (delete a s)"
  unfolding closed_iff
  by (auto simp: item_delete split: if_splits) (simp_all add: delete_def)

lemma item_alloc: "item (snd (alloc y s)) b = (if b = length (heap s) then Some y else item s b)"
  by (auto simp: item_def alloc_def nth_append)

lemma closed_alloc: "closed G s \<Longrightarrow> closed G (snd (alloc x s))"
  unfolding closed_iff
  by (auto simp: item_alloc split: if_splits) (auto simp: alloc_def)

lemma node_ok_mono: "node_ok G x \<Longrightarrow> G \<subseteq> G' \<Longrightarrow> node_ok G' x"
  unfolding node_ok_def by (auto split: option.splits)

lemma closed_insert:
  assumes "closed G s" and "a < length (heap s)"
    and "\<And>x. item s a = Some x \<Longrightarrow> node_ok (insert a G) x"
  shows "closed (insert a G) s"
  using assms unfolding closed_iff
  by (auto intro: node_ok_mono [of G _ "insert a G"])

lemma length_heap_alloc: "length (heap (snd (alloc y s))) = Suc (length (heap s))"
  by (simp add: alloc_def)

lemma closed_alloc_insert:
  assumes "closed G s" and "node_ok (insert (length (heap s)) G) x"
  shows "closed (insert (length (heap s)) G) (snd (alloc x s))"
proof (rule closed_insert)
  show "closed G (snd (alloc x s))" using assms(1) by (rule closed_alloc)
  show "length (heap s) < length (heap (snd (alloc x s)))" by (simp add: length_heap_alloc)
  fix y assume "item (snd (alloc x s)) (length (heap s)) = Some y"
  then have "y = x" by (simp add: item_alloc)
  with assms(2) show "node_ok (insert (length (heap s)) G) y" by simp
qed

lemma node_ok_upd [simp]:
  "node_ok G (x\<lparr>name := n\<rparr>) = node_ok G x"
  by (simp add: node_ok_def item_ok_def)

lemma node_ok_children:
  "node_ok G x \<Longrightarrow> set cs \<subseteq> G \<Longrightarrow> node_ok G (x\<lparr>children := cs\<rparr>)"
  by (simp add: node_ok_def item_ok_def)

lemma node_ok_parent:
  "node_ok G x \<Longrightarrow> p \<in> G \<Longrightarrow> node_ok G (x\<lparr>parent := Some p\<rparr>)"
  by (simp add: node_ok_def item_ok_def)

lemma closed_new: "closed {0} (FileSystem_new capacity)"
  by (simp add: closed_iff FileSystem_new_def item_def node_ok_def item_ok_def new_Item_def)

subsection \<open>Path resolution\<close>

lemma find_child_mem: "find_child s cs part = Inr (Some c) \<Longrightarrow> c \<in> set cs"
  by (induction cs) (auto split: option.splits if_splits)

lemma mkdir_find_mem: "mkdir_find s cs part = Inr (Some c) \<Longrightarrow> c \<in> set cs"
  by (induction cs) (auto split: option.splits if_splits)

lemma getItem_loop_closed:
  "closed G s \<Longrightarrow> cur \<in> G \<Longrightarrow> getItem_loop s cur parts = Inr (Some a) \<Longrightarrow> a \<in> G"
proof (induction parts arbitrary: cur)
  case Nil
  then show ?case by simp
next
  case (Cons part parts)
  show ?case
  proof (cases "part = ''.''")
    case True
    with Cons show ?thesis by simp
  next
    case False
    show ?thesis
    proof (cases "item s cur")
      case None
      with Cons.prems False show ?thesis by simp
    next
      case (Some c)
      note ch = closed_children [OF Cons.prems(1,2) Some]
      show ?thesis
      proof (cases "part = ''..''")
        case True
        show ?thesis
        proof (cases "parent c")
          case None
          with Cons.prems Some True have "getItem_loop s cur parts = Inr (Some a)" by simp
          from Cons.IH [OF Cons.prems(1,2) this] show ?thesis .
        next
          case (Some p)
          have "p \<in> G" using closed_parent [OF Cons.prems(1,2) \<open>item s cur = Some c\<close> Some] .
          moreover from Cons.prems \<open>item s cur = Some c\<close> True Some
          have "getItem_loop s p parts = Inr (Some a)" by simp
          ultimately show ?thesis using Cons.IH [OF Cons.prems(1)] by blast
        qed
      next
        case np: False
        from Cons.prems(3) False np Some obtain child where
          fc: "find_child s (children c) part = Inr (Some child)"
          and rec: "getItem_loop s child parts = Inr (Some a)"
          by (auto split: sum.splits option.splits)
        have "child \<in> G" using find_child_mem [OF fc] ch by auto
        from Cons.IH [OF Cons.prems(1) this rec] show ?thesis .
      qed
    qed
  qed
qed

lemma getItem_closed:
  assumes "closed G s" "getItem path s = Inr (Some a)"
  shows "a \<in> G"
proof -
  note r = closed_root [OF assms(1)] and c = closed_currentDir [OF assms(1)]
  have par: "(case parent x of Some p \<Rightarrow> p | None \<Rightarrow> currentDir s) \<in> G"
    if "item s (currentDir s) = Some x" for x
    using closed_parent [OF assms(1) c that] c by (cases "parent x") auto
  show ?thesis
  proof (cases "path = [] \<or> path = ''.''")
    case True
    with assms(2) have "a = currentDir s" by (simp add: getItem_def)
    with c show ?thesis by simp
  next
    case n1: False
    show ?thesis
    proof (cases "path = ''/''")
      case True
      with assms(2) n1 have "a = root s" by (simp add: getItem_def)
      with r show ?thesis by simp
    next
      case n2: False
      show ?thesis
      proof (cases "path = ''..''")
        case True
        with assms(2) n1 n2 obtain x where "item s (currentDir s) = Some x"
          "a = (case parent x of Some p \<Rightarrow> p | None \<Rightarrow> currentDir s)"
          by (simp add: getItem_def split: option.splits)
        with par show ?thesis by simp
      next
        case n3: False
        with assms(2) n1 n2 have 4: "getItem_loop s (if hd path = CHR ''/'' then root s else currentDir s)
            (splitPath path) = Inr (Some a)"
          by (simp add: getItem_def)
        have "(if hd path = CHR ''/'' then root s else currentDir s) \<in> G" using r c by simp
        from getItem_loop_closed [OF assms(1) this 4] show ?thesis .
      qed
    qed
  qed
qed

lemma folder_ptr_Some: "folder_ptr s p = Inr (Some d) \<Longrightarrow> p = Some d"
  by (auto simp: folder_ptr_def split: option.splits if_splits)

lemma cd_closed: "closed G s \<Longrightarrow> closed G (snd (cd path s))"
  by (auto simp: cd_def split: sum.splits option.splits intro: closed_cd getItem_closed)

subsection \<open>Creating nodes\<close>

lemma fits_int_to_int: "fits_int n \<Longrightarrow> to_int (int n) = int n"
  unfolding fits_int_def by (rule to_int_small)

text \<open>Writing a file whose sector list is empty and whose content an \<^verbatim>\<open>int\<close> holds.\<close>

lemma saveToDisk_fresh:
  assumes res: "saveToDisk (Some a) s = (r, s')"
    and f: "item s a = Some f" and nf: "\<not> isFolder f" and e: "sectors f = []"
    and fit: "fits_int (length (content f))"
  shows "\<exists>ids m d.
      s' = s\<lparr>disk := d, sectorMap := m, heap := (heap s)[a := Some (f\<lparr>sectors := ids\<rparr>)]\<rparr> \<and>
      (r = Inl DiskFull \<and> content f \<noteq> [] \<or> r = Inr () \<and> item_ok (f\<lparr>sectors := ids\<rparr>))"
proof -
  note L = fits_int_to_int [OF fit]
  from saveToDisk_file_result [OF res f nf L]
  show ?thesis
  proof (elim disjE exE conjE)
    fix k assume "fst (freeSectors (sectors f) s) = Inl (InvalidSector k)"
    with e show ?thesis by simp
  next
    fix s1 m1 ids m d
    assume s': "s' = s\<lparr>disk := d, sectorMap := m, heap := (heap s)[a := Some (f\<lparr>sectors := ids\<rparr>)]\<rparr>"
      and r: "case r of
           Inl e \<Rightarrow> e = DiskFull \<and> min (SECTOR_SIZE * length ids) (length (content f)) < length (content f) \<and>
                    (\<forall>j < length m. m ! j)
         | Inr u \<Rightarrow> length (content f) = length (content f) \<and> length ids = sectors_needed (length (content f))"
    have "r = Inl DiskFull \<and> content f \<noteq> [] \<or> r = Inr () \<and> item_ok (f\<lparr>sectors := ids\<rparr>)"
    proof (cases r)
      case (Inl e)
      with r show ?thesis by auto
    next
      case (Inr u)
      with r nf fit show ?thesis by (simp add: item_ok_def)
    qed
    with s' show ?thesis by blast
  qed
qed

text \<open>Creating a file node, linking it and writing it: the common part of touch and put.\<close>

lemma create_file_closed:
  assumes cl: "closed G s" and dG: "dir \<in> G" and d: "item s dir = Some dx"
    and fit: "fits_int (length bytes)"
    and res: "saveToDisk (Some (length (heap s)))
        (store dir (dx\<lparr>children := children dx @ [length (heap s)]\<rparr>)
          (snd (alloc (new_Item\<lparr>isFolder := False, name := nm, content := bytes, parent := Some dir\<rparr>) s))) = (r, s')"
  shows "r = Inl DiskFull \<and> bytes \<noteq> [] \<or> r = Inr () \<and> closed (insert (length (heap s)) G) s'"
proof -
  let ?new = "new_Item\<lparr>isFolder := False, name := nm, content := bytes, parent := Some dir\<rparr>"
  let ?a = "length (heap s)"
  let ?dx = "dx\<lparr>children := children dx @ [?a]\<rparr>"
  let ?s2 = "store dir ?dx (snd (alloc ?new s))"
  have dlt: "dir < ?a" using d by (rule item_lt)
  have f2: "item ?s2 ?a = Some ?new" using dlt by (simp add: item_store' item_alloc)
  have nf: "\<not> isFolder ?new" and e: "sectors ?new = []" and fit': "fits_int (length (content ?new))"
    using fit by (simp_all add: new_Item_def)
  from saveToDisk_fresh [OF res f2 nf e fit'] obtain ids m dk where
    s': "s' = ?s2\<lparr>disk := dk, sectorMap := m, heap := (heap ?s2)[?a := Some (?new\<lparr>sectors := ids\<rparr>)]\<rparr>"
    and r: "r = Inl DiskFull \<and> content ?new \<noteq> [] \<or> r = Inr () \<and> item_ok (?new\<lparr>sectors := ids\<rparr>)"
    by blast
  show ?thesis
  proof (cases "r = Inr ()")
    case False
    with r show ?thesis by simp
  next
    case True
    with r have ok: "item_ok (?new\<lparr>sectors := ids\<rparr>)" by auto
    let ?new' = "?new\<lparr>sectors := ids\<rparr>"
    let ?t1 = "snd (alloc ?new' s)"
    have n1: "node_ok (insert ?a G) ?new'"
      using ok dG by (simp add: node_ok_def new_Item_def)
    have c2: "closed (insert ?a G) ?t1"
      using cl n1 by (rule closed_alloc_insert)
    have nd: "node_ok (insert ?a G) ?dx"
      using closed_item [OF cl dG d]
      by (intro node_ok_children node_ok_mono [of G dx "insert ?a G"]) (auto simp: node_ok_def)
    have c3: "closed (insert ?a G) (store dir ?dx ?t1)"
      using c2 nd by (intro closed_store)
    have "heap s' = heap (store dir ?dx ?t1)"
      using dlt by (simp add: s' store_def alloc_def list_update_append)
    moreover have "root s' = root (store dir ?dx ?t1)" "currentDir s' = currentDir (store dir ?dx ?t1)"
      by (simp_all add: s' store_def alloc_def)
    ultimately have "closed (insert ?a G) s' = closed (insert ?a G) (store dir ?dx ?t1)"
      by (intro closed_cong)
    with c3 True show ?thesis by simp
  qed
qed

lemma touch_closed:
  assumes "closed G s" "touch nm s = (e, s')"
  shows "\<exists>G'. closed G' s'"
proof (cases "isValidName nm")
  case False
  with assms show ?thesis by (auto simp: touch_def)
next
  case True
  show ?thesis
  proof (cases "item s (currentDir s)")
    case None
    with assms True show ?thesis by (auto simp: touch_def)
  next
    case (Some cur)
    show ?thesis
    proof (cases "find_child s (children cur) nm = Inr None")
      case False
      with assms True Some have "s' = s"
        by (auto simp: touch_def split: sum.splits option.splits)
      with assms show ?thesis by auto
    next
      case fc: True
      obtain r s2 where sv: "saveToDisk (Some (length (heap s)))
        (store (currentDir s) (cur\<lparr>children := children cur @ [length (heap s)]\<rparr>)
          (snd (alloc (new_Item\<lparr>isFolder := False, name := nm, content := [],
                 parent := Some (currentDir s)\<rparr>) s))) = (r, s2)"
        by (cases "saveToDisk (Some (length (heap s)))
        (store (currentDir s) (cur\<lparr>children := children cur @ [length (heap s)]\<rparr>)
          (snd (alloc (new_Item\<lparr>isFolder := False, name := nm, content := [],
                 parent := Some (currentDir s)\<rparr>) s)))")
      from assms(2) True Some fc sv have e: "s' = s2"
        by (auto simp: touch_def alloc_def split: sum.splits)
      have fit: "fits_int (length ([]::string))" by (simp add: fits_int_def)
      from create_file_closed [OF assms(1) closed_currentDir [OF assms(1)] Some fit sv] e
      show ?thesis by auto
    qed
  qed
qed

lemma put_closed:
  assumes "closed G s" "put realFile fl fsPath s = (e, s')" "e \<noteq> Some DiskFull"
    and "case fl of None \<Rightarrow> True | Some bytes \<Rightarrow> length bytes < 2 ^ 31"
  shows "\<exists>G'. closed G' s'"
proof (cases fl)
  case None
  with assms show ?thesis by (auto simp: put_def)
next
  case (Some bytes)
  with assms(4) have fit: "fits_int (length bytes)" by (simp add: fits_int_def)
  show ?thesis
  proof (cases "\<exists>destDir d. (\<exists>p. getItem fsPath s = Inr p \<and> folder_ptr s p = Inr (Some destDir)) \<and>
      item s destDir = Some d \<and> put_exists s (children d) realFile = Inr False")
    case False
    with assms Some have "s' = s"
      by (auto simp: put_def split: sum.splits option.splits bool.splits)
    with assms show ?thesis by auto
  next
    case True
    then obtain destDir d p where p: "getItem fsPath s = Inr p" "folder_ptr s p = Inr (Some destDir)"
      "item s destDir = Some d" "put_exists s (children d) realFile = Inr False" by blast
    have dG: "destDir \<in> G"
      using getItem_closed [OF assms(1), of fsPath destDir] p(1) folder_ptr_Some [OF p(2)] by simp
    obtain r s2 where sv: "saveToDisk (Some (length (heap s)))
        (store destDir (d\<lparr>children := children d @ [length (heap s)]\<rparr>)
          (snd (alloc (new_Item\<lparr>isFolder := False, name := realFile, content := bytes,
                 parent := Some destDir\<rparr>) s))) = (r, s2)"
      by (cases "saveToDisk (Some (length (heap s)))
        (store destDir (d\<lparr>children := children d @ [length (heap s)]\<rparr>)
          (snd (alloc (new_Item\<lparr>isFolder := False, name := realFile, content := bytes,
                 parent := Some destDir\<rparr>) s)))")
    from assms(2) Some p sv have e: "s' = s2" "e = (case r of Inl x \<Rightarrow> Some x | Inr u \<Rightarrow> None)"
      by (auto simp: put_def alloc_def split: sum.splits)
    with assms(3) have "r \<noteq> Inl DiskFull" by auto
    with create_file_closed [OF assms(1) dG p(3) fit sv] e show ?thesis by auto
  qed
qed

lemma mkdir_loop_closed:
  "closed G s \<Longrightarrow> cur \<in> G \<Longrightarrow> \<exists>G'. closed G' (snd (mkdir_loop parts cur s))"
proof (induction parts arbitrary: cur s G)
  case Nil
  then show ?case by auto
next
  case (Cons part parts)
  show ?case
  proof (cases "item s cur")
    case None
    with Cons.prems show ?thesis by auto
  next
    case (Some c)
    let ?a = "length (heap s)"
    let ?new = "new_Item\<lparr>isFolder := True, name := part, parent := Some cur\<rparr>"
    let ?c = "c\<lparr>children := children c @ [?a]\<rparr>"
    let ?t1 = "snd (alloc ?new s)"
    have n1: "node_ok (insert ?a G) ?new"
      using Cons.prems(2) by (simp add: node_ok_def item_ok_def new_Item_def)
    have c2: "closed (insert ?a G) ?t1"
      using Cons.prems(1) n1 by (rule closed_alloc_insert)
    have nd: "node_ok (insert ?a G) ?c"
      using closed_item [OF Cons.prems(1,2) Some]
      by (intro node_ok_children node_ok_mono [of G c "insert ?a G"]) (auto simp: node_ok_def)
    have c3: "closed (insert ?a G) (store cur ?c ?t1)"
      using c2 nd by (intro closed_store)
    have new: "\<exists>G'. closed G' (snd (mkdir_loop parts ?a (store cur ?c ?t1)))"
      using Cons.IH [OF c3] by simp
    have old: "\<exists>G'. closed G' (snd (mkdir_loop parts nxt s))"
      if "mkdir_find s (children c) part = Inr (Some nxt)" for nxt
    proof -
      have "nxt \<in> G" using mkdir_find_mem [OF that] closed_children [OF Cons.prems(1,2) Some] by auto
      from Cons.IH [OF Cons.prems(1) this] show ?thesis .
    qed
    show ?thesis
      using Cons.prems(1) Some new old
      by (auto simp: alloc_def split: sum.splits option.splits)
  qed
qed

lemma mkdir_closed: "closed G s \<Longrightarrow> \<exists>G'. closed G' (snd (mkdir path s))"
  using mkdir_loop_closed [of G s "if hd path = CHR ''/'' then root s else currentDir s" "splitPath path"]
  by (auto simp: mkdir_def closed_root closed_currentDir)

subsection \<open>Moving and removing\<close>

lemma frame_refl [simp]: "\<exists>m. s = s\<lparr>sectorMap := m\<rparr>"
  by (rule exI [of _ "sectorMap s"]) simp

lemma push_child_closed:
  assumes "closed G s" "d \<in> G" "c \<in> G"
  shows "closed G (snd (push_child d c s))"
proof (cases "item s d")
  case None
  with assms show ?thesis by (simp add: push_child_def)
next
  case (Some x)
  have "node_ok G (x\<lparr>children := children x @ [c]\<rparr>)"
    using closed_item [OF assms(1,2) Some] assms(3)
    by (intro node_ok_children) (auto simp: node_ok_def)
  then have "closed G (store d (x\<lparr>children := children x @ [c]\<rparr>) s)"
    by (intro closed_store [OF assms(1)])
  with Some show ?thesis by (simp add: push_child_def)
qed

lemma detach_closed: "closed G s \<Longrightarrow> a \<in> G \<Longrightarrow> closed G (snd (detach a s))"
proof -
  assume cl: "closed G s" and a: "a \<in> G"
  have "closed G (store p (px\<lparr>children := remove1 a (children px)\<rparr>) s)"
    if "item s a = Some src" "parent src = Some p" "item s p = Some px" for src p px
  proof (rule closed_store [OF cl])
    have "p \<in> G" using closed_parent [OF cl a that(1,2)] .
    from closed_item [OF cl this that(3)]
    show "node_ok G (px\<lparr>children := remove1 a (children px)\<rparr>)"
      by (intro node_ok_children) (auto simp: node_ok_def dest: notin_set_remove1)
  qed
  with cl show ?thesis by (auto simp: detach_def split: option.splits)
qed

lemma attach_closed:
  assumes "closed G s" "a \<in> G" "d \<in> G"
  shows "closed G (snd (attach a d s))"
proof (cases "item s a")
  case None
  with assms show ?thesis by (simp add: attach_def)
next
  case (Some src)
  have "closed G (store a (src\<lparr>parent := Some d\<rparr>) s)"
    using closed_item [OF assms(1,2) Some] assms(3)
    by (intro closed_store [OF assms(1)] node_ok_parent)
  from push_child_closed [OF this assms(3,2)] Some show ?thesis by (simp add: attach_def)
qed

lemma mv_rename_closed:
  assumes "closed G s" "a \<in> G" "d \<in> G"
  shows "closed G (snd (mv_rename a nm d same s))"
proof (cases "item s a")
  case None
  with assms show ?thesis by (simp add: mv_rename_def)
next
  case (Some src)
  have c: "closed G (store a (src\<lparr>name := nm\<rparr>) s)"
    using closed_item [OF assms(1,2) Some] by (intro closed_store [OF assms(1)]) simp
  from attach_closed [OF c assms(2,3)] c Some show ?thesis by (simp add: mv_rename_def)
qed

lemma mv_into_closed:
  assumes "closed G s" "a \<in> G" "d \<in> G"
  shows "closed G (snd (mv_into a d s))"
proof -
  have 1: "closed G (snd (detach a s))" using assms(1,2) by (rule detach_closed)
  have 2: "closed G (snd (attach a d (snd (detach a s))))" using 1 assms(2,3) by (rule attach_closed)
  show ?thesis
    using assms(1) 1 2
    by (cases "detach a s") (auto simp: mv_into_def split: option.splits sum.splits)
qed

lemma mv_as_closed:
  assumes "closed G s" "a \<in> G"
  shows "closed G (snd (mv_as a dest s))"
proof (cases "\<exists>destDir. getItem (fst (split_dest dest)) s = Inr (Some destDir)")
  case False
  then have "snd (mv_as a dest s) = s"
    by (auto simp: mv_as_def folder_ptr_def split: sum.splits option.splits)
  with assms show ?thesis by simp
next
  case True
  then obtain destDir where g: "getItem (fst (split_dest dest)) s = Inr (Some destDir)" by blast
  have d: "destDir \<in> G" using getItem_closed [OF assms(1) g] .
  have 1: "closed G (snd (detach a s))" using assms by (rule detach_closed)
  have 2: "closed G (snd (mv_rename a nm destDir same (snd (detach a s))))" for nm same
    using 1 assms(2) d by (rule mv_rename_closed)
  have 3: "closed G (snd (mv_rename a nm destDir same s))" for nm same
    using assms d by (rule mv_rename_closed)
  show ?thesis
    using assms(1) g 1 2 3
    by (cases "detach a s")
      (auto simp: mv_as_def folder_ptr_def split: option.splits sum.splits bool.splits if_splits)
qed

lemma mv_closed:
  assumes "closed G s" "mv n source dest s = Some (e, s')"
  shows "closed G s'"
proof (cases "\<exists>a. getItem source s = Inr (Some a)")
  case False
  with assms(2) have "s' = s" by (auto simp: mv_def split: sum.splits option.splits)
  with assms show ?thesis by simp
next
  case True
  then obtain a where g: "getItem source s = Inr (Some a)" by blast
  have a: "a \<in> G" using getItem_closed [OF assms(1) g] .
  have "s' = s \<or> (\<exists>d. getItem dest s = Inr (Some d) \<and> s' = snd (mv_into a d s)) \<or>
      s' = snd (mv_as a dest s)"
    using assms(2) g
    by (auto simp: mv_def split: sum.splits option.splits if_splits dest!: folder_ptr_Some)
  then show ?thesis
    using assms(1) a mv_as_closed [OF assms(1) a, of dest]
    by (auto intro: mv_into_closed getItem_closed)
qed

lemma freeSectors_frame:
  "freeSectors ids s = (r, s1) \<Longrightarrow> \<exists>m. s1 = s\<lparr>sectorMap := m\<rparr> \<and> length m = length (sectorMap s)"
proof (induction ids arbitrary: s)
  case Nil
  then show ?case by (auto intro: exI [of _ "sectorMap s"])
next
  case (Cons sector rest)
  show ?case
  proof (cases "sector < 0 \<or> int (length (sectorMap s)) \<le> sector")
    case True
    with Cons.prems show ?thesis by (auto simp: freeSector_def intro: exI [of _ "sectorMap s"])
  next
    case False
    with Cons.prems
    have "freeSectors rest (s\<lparr>sectorMap := (sectorMap s)[nat sector := False]\<rparr>) = (r, s1)"
      by (simp add: freeSector_def)
    from Cons.IH [OF this] show ?thesis by auto
  qed
qed


lemma freeSectorsRecursive_frame:
  "freeSectorsRecursive n a s = Some (r, s') \<Longrightarrow> \<exists>m. s' = s\<lparr>sectorMap := m\<rparr>"
  "freeSectorsRecursive_children n cs s = Some (r, s') \<Longrightarrow> \<exists>m. s' = s\<lparr>sectorMap := m\<rparr>"
proof (induction n a s and n cs s arbitrary: r s' and r s' rule: freeSectorsRecursive_freeSectorsRecursive_children.induct)
  case (1 it s)
  then show ?case by simp
next
  case (2 n s)
  then show ?case by (auto intro: exI [of _ "sectorMap s"])
next
  case (3 n a s)
  show ?case
  proof (cases "item s a")
    case None
    with "3.prems" show ?thesis by simp
  next
    case (Some x)
    obtain rf s1 where fr: "(if \<not> isFolder x then freeSectors (sectors x) s else (Inr (), s)) = (rf, s1)"
      by (cases "if \<not> isFolder x then freeSectors (sectors x) s else (Inr (), s)")
    then have h1: "\<exists>m. s1 = s\<lparr>sectorMap := m\<rparr>"
      using freeSectors_frame [of "sectors x" s rf s1]
      by (auto split: if_splits intro: exI [of _ "sectorMap s"])
    show ?thesis
    proof (cases rf)
      case (Inl e)
      with "3.prems" Some fr h1 show ?thesis by auto
    next
      case (Inr u)
      with "3.prems" Some fr have "freeSectorsRecursive_children n (children x) s1 = Some (r, s')"
        by simp
      from "3.IH" [OF Some fr [symmetric] Inr this] h1 show ?thesis by auto
    qed
  qed
next
  case (4 n s)
  then show ?case by (auto intro: exI [of _ "sectorMap s"])
next
  case (5 n child rest s)
  from "5.prems" obtain r1 s1 where c: "freeSectorsRecursive n (Some child) s = Some (r1, s1)"
    by (auto split: option.splits)
  note h1 = "5.IH"(1) [OF c]
  show ?case
  proof (cases r1)
    case (Inl e)
    with "5.prems" c h1 show ?thesis by auto
  next
    case (Inr u)
    with "5.prems" c have "freeSectorsRecursive_children n rest s1 = Some (r, s')" by simp
    from "5.IH"(2) [OF c refl Inr this] h1 show ?thesis by auto
  qed
qed


lemma deleteTree_closed:
  "deleteTree n a s = Some (r, s') \<Longrightarrow> closed G s \<Longrightarrow> closed G s'"
  "deleteTree_children n cs s = Some (r, s') \<Longrightarrow> closed G s \<Longrightarrow> closed G s'"
proof (induction n a s and n cs s arbitrary: r s' and r s' rule: deleteTree_deleteTree_children.induct)
  case (1 node s)
  then show ?case by simp
next
  case (2 n s)
  then show ?case by simp
next
  case (3 n a s)
  show ?case
  proof (cases "item s a")
    case None
    with "3.prems" show ?thesis by simp
  next
    case (Some x)
    with "3.prems" obtain r1 s1 where c: "deleteTree_children n (children x) s = Some (r1, s1)"
      by (auto split: option.splits)
    note ok1 = "3.IH" [OF Some c "3.prems"(2)]
    show ?thesis
    proof (cases r1)
      case (Inl e)
      with "3.prems" Some c ok1 show ?thesis by simp
    next
      case (Inr u)
      with "3.prems" Some c obtain r2 s2 where
        f: "freeSectorsRecursive (Suc n) (Some a) s1 = Some (r2, s2)"
        by (auto split: option.splits)
      have ok2: "closed G s2"
        using freeSectorsRecursive_frame(1) [OF f] ok1 by auto
      from "3.prems" Some c Inr f have "s' = s2 \<or> s' = delete a s2"
        by (auto split: sum.splits)
      with ok2 show ?thesis by (auto intro: closed_delete)
    qed
  qed
next
  case (4 n s)
  then show ?case by simp
next
  case (5 n child rest s)
  from "5.prems" obtain r1 s1 where c: "deleteTree n (Some child) s = Some (r1, s1)"
    by (auto split: option.splits)
  note ok1 = "5.IH"(1) [OF c "5.prems"(2)]
  show ?case
  proof (cases r1)
    case (Inl e)
    with "5.prems" c ok1 show ?thesis by simp
  next
    case (Inr u)
    with "5.prems" c have "deleteTree_children n rest s1 = Some (r, s')" by simp
    from "5.IH"(2) [OF c refl Inr this ok1] show ?thesis .
  qed
qed


lemma rm_closed:
  assumes "closed G s" "rm n nm recursive s = Some (e, s')"
  shows "closed G s'"
proof (cases "item s (currentDir s)")
  case None
  with assms show ?thesis by (simp add: rm_def)
next
  case (Some cur)
  have ok1: "closed G (store (currentDir s) (cur\<lparr>children := remove1 target (children cur)\<rparr>) s)"
    for target
    using closed_item [OF assms(1) closed_currentDir [OF assms(1)] Some]
    by (intro closed_store [OF assms(1)] node_ok_children)
      (auto simp: node_ok_def dest: notin_set_remove1)
  from assms(2) Some
  have "s' = s \<or> (\<exists>target r. deleteTree n (Some target)
      (store (currentDir s) (cur\<lparr>children := remove1 target (children cur)\<rparr>) s) = Some (r, s'))"
    by (auto simp: rm_def split: sum.splits option.splits if_splits)
  with assms(1) ok1 show ?thesis by (auto dest: deleteTree_closed(1))
qed

subsection \<open>Copying\<close>

lemma copyItem_closed:
  "copyItem n src np s = Some (r, s') \<Longrightarrow> closed G s \<Longrightarrow> src \<in> G \<Longrightarrow> np \<in> G \<Longrightarrow>
     \<exists>G'. G \<subseteq> G' \<and> closed G' s' \<and> (\<forall>new. r = Inr new \<longrightarrow> new \<in> G')"
  "copyItem_children n cs newItem s = Some (r, s') \<Longrightarrow> closed G s \<Longrightarrow> set cs \<subseteq> G \<Longrightarrow> newItem \<in> G \<Longrightarrow>
     \<exists>G'. G \<subseteq> G' \<and> closed G' s' \<and> (\<forall>new. r = Inr new \<longrightarrow> new \<in> G')"
proof (induction n src np s and n cs newItem s arbitrary: r s' G and r s' G
    rule: copyItem_copyItem_children.induct)
  case (1 source newParent s)
  then show ?case by simp
next
  case (2 n source newParent s)
  note cl = "2.prems"(2) and sG = "2.prems"(3) and pG = "2.prems"(4)
  show ?case
  proof (cases "item s source")
    case None
    with "2.prems" show ?thesis by auto
  next
    case (Some src)
    let ?new = "new_Item\<lparr>isFolder := isFolder src, name := name src,
                                 content := content src, parent := Some newParent\<rparr>"
    let ?a = "length (heap s)"
    let ?s1 = "s\<lparr>heap := heap s @ [Some ?new]\<rparr>"
    have s1: "snd (alloc ?new s) = ?s1" by (simp add: alloc_def)
    have oksrc: "item_ok src" using cl sG Some by (rule closed_item_ok)
    have chsrc: "set (children src) \<subseteq> G" using cl sG Some by (rule closed_children)
    have al: "alloc ?new s = (?a, ?s1)" by (simp add: alloc_def)
    have aG: "?a \<notin> G" using closed_lt [OF cl, of ?a] by auto
    obtain r2 s2 where sv: "(if \<not> isFolder src then saveToDisk (Some ?a) ?s1 else (Inr (), ?s1)) = (r2, s2)"
      by (cases "if \<not> isFolder src then saveToDisk (Some ?a) ?s1 else (Inr (), ?s1)")
    have c1: "closed G ?s1" using closed_alloc [OF cl, of ?new] by (simp only: s1)
    have step: "closed G s2 \<and> (\<forall>u. r2 = Inr u \<longrightarrow> closed (insert ?a G) s2)"
    proof (cases "isFolder src")
      case True
      with sv have e: "s2 = ?s1" "r2 = Inr ()" by simp_all
      have "node_ok (insert ?a G) ?new"
        using True oksrc pG by (simp add: node_ok_def item_ok_def new_Item_def)
      from closed_alloc_insert [OF cl this] c1 e show ?thesis by (simp only: s1) simp
    next
      case False
      with sv have svd: "saveToDisk (Some ?a) ?s1 = (r2, s2)" by simp
      have f1: "item ?s1 ?a = Some ?new" by (simp add: item_def)
      have nf: "\<not> isFolder ?new" and em: "sectors ?new = []"
        and fit: "fits_int (length (content ?new))"
        using False oksrc by (simp_all add: new_Item_def item_ok_def)
      from saveToDisk_fresh [OF svd f1 nf em fit] obtain ids m d where
        s2: "s2 = ?s1\<lparr>disk := d, sectorMap := m, heap := (heap ?s1)[?a := Some (?new\<lparr>sectors := ids\<rparr>)]\<rparr>"
        and r2: "r2 = Inl DiskFull \<and> content ?new \<noteq> [] \<or> r2 = Inr () \<and> item_ok (?new\<lparr>sectors := ids\<rparr>)"
        by blast
      let ?new' = "?new\<lparr>sectors := ids\<rparr>"
      have eq: "s2 = (store ?a ?new' ?s1)\<lparr>disk := d, sectorMap := m\<rparr>"
        by (simp add: s2 store_def)
      have c2: "closed G s2"
        unfolding eq using c1 aG by (simp add: closed_store_out)
      have "closed (insert ?a G) s2" if "r2 = Inr u" for u
      proof (rule closed_insert [OF c2])
        show "?a < length (heap s2)" by (simp add: s2)
        fix x assume "item s2 ?a = Some x"
        then have "x = ?new'" by (simp add: eq item_store')
        moreover have "item_ok ?new'" using r2 that by auto
        ultimately show "node_ok (insert ?a G) x"
          using pG by (simp add: node_ok_def new_Item_def)
      qed
      with c2 show ?thesis by blast
    qed
    show ?thesis
    proof (cases r2)
      case (Inl e)
      with "2.prems"(1) Some al sv have "s' = s2" "r = Inl e" by simp_all
      with step show ?thesis by auto
    next
      case (Inr u)
      with step have c3: "closed (insert ?a G) s2" by simp
      from "2.prems"(1) Some al sv Inr
      have rec: "copyItem_children n (children src) ?a s2 = Some (r, s')" by simp
      have sub: "set (children src) \<subseteq> insert ?a G" using chsrc by auto
      from "2.IH" [OF Some al [symmetric] sv [symmetric] Inr rec c3 sub]
      obtain G' where "insert ?a G \<subseteq> G'" "closed G' s'" "\<forall>new. r = Inr new \<longrightarrow> new \<in> G'"
        by auto
      then show ?thesis by (intro exI [of _ G']) auto
    qed
  qed
next
  case (3 n newItem s)
  then show ?case by auto
next
  case (4 n child rest newItem s)
  note cl = "4.prems"(2) and sub = "4.prems"(3) and nG = "4.prems"(4)
  from "4.prems"(1) obtain r1 s1 where c: "copyItem n child newItem s = Some (r1, s1)"
    by (auto split: option.splits)
  have chG: "child \<in> G" using sub by simp
  from "4.IH"(1) [OF c cl chG nG] obtain G1 where
    G1: "G \<subseteq> G1" "closed G1 s1" "\<forall>new. r1 = Inr new \<longrightarrow> new \<in> G1" by blast
  show ?case
  proof (cases r1)
    case (Inl e)
    with "4.prems"(1) c have "s' = s1" "r = Inl e" by simp_all
    with G1 show ?thesis by auto
  next
    case (Inr newChild)
    with G1 have ncG: "newChild \<in> G1" by simp
    have nG1: "newItem \<in> G1" using nG G1(1) by auto
    show ?thesis
    proof (cases "item s1 newItem")
      case None
      with "4.prems"(1) c Inr have "s' = s1" by simp
      with G1 None "4.prems"(1) c Inr show ?thesis by auto
    next
      case (Some x)
      let ?s2 = "store newItem (x\<lparr>children := children x @ [newChild]\<rparr>) s1"
      have "node_ok G1 (x\<lparr>children := children x @ [newChild]\<rparr>)"
        using closed_item [OF G1(2) nG1 Some] ncG
        by (intro node_ok_children) (auto simp: node_ok_def)
      then have c2: "closed G1 ?s2" by (intro closed_store [OF G1(2)])
      from "4.prems"(1) c Inr Some
      have rec: "copyItem_children n rest newItem ?s2 = Some (r, s')" by simp
      have sub1: "set rest \<subseteq> G1" using sub G1(1) by auto
      from "4.IH"(2) [OF c refl Inr Some rec c2 sub1 nG1]
      obtain G' where "G1 \<subseteq> G'" "closed G' s'" "\<forall>new. r = Inr new \<longrightarrow> new \<in> G'" by blast
      with G1(1) show ?thesis by (intro exI [of _ G']) auto
    qed
  qed
qed

lemma cp_into_cases:
  "cp_into n a d s = Some (e, s') \<Longrightarrow>
     s' = s \<or> (\<exists>e1. copyItem n a d s = Some (Inl e1, s')) \<or>
     (\<exists>newItem s1. copyItem n a d s = Some (Inr newItem, s1) \<and> push_child d newItem s1 = (e, s'))"
  by (auto simp: cp_into_def split: option.splits sum.splits)

lemma cp_into_closed:
  assumes "closed G s" "a \<in> G" "d \<in> G" "cp_into n a d s = Some (e, s')"
  shows "\<exists>G'. closed G' s'"
  using cp_into_cases [OF assms(4)]
proof (elim disjE exE conjE)
  assume "s' = s"
  with assms show ?thesis by auto
next
  fix e1 assume "copyItem n a d s = Some (Inl e1, s')"
  from copyItem_closed(1) [OF this assms(1,2,3)] show ?thesis by auto
next
  fix newItem s1
  assume c: "copyItem n a d s = Some (Inr newItem, s1)" and p: "push_child d newItem s1 = (e, s')"
  from copyItem_closed(1) [OF c assms(1,2,3)] obtain G' where
    G': "G \<subseteq> G'" "closed G' s1" "newItem \<in> G'" by auto
  with assms(3) have "closed G' (snd (push_child d newItem s1))"
    by (intro push_child_closed) auto
  with p show ?thesis by auto
qed

lemma cp_as_cases:
  "cp_as n a dest s = Some (e, s') \<Longrightarrow>
     s' = s \<or>
     (\<exists>d. getItem (fst (split_dest dest)) s = Inr (Some d) \<and>
        ((\<exists>e1. copyItem n a d s = Some (Inl e1, s')) \<or>
         (\<exists>newItem. copyItem n a d s = Some (Inr newItem, s')) \<or>
         (\<exists>newItem s1 x. copyItem n a d s = Some (Inr newItem, s1) \<and> item s1 newItem = Some x \<and>
            push_child d newItem (store newItem (x\<lparr>name := snd (split_dest dest)\<rparr>) s1) = (e, s'))))"
  by (auto simp: cp_as_def split: option.splits sum.splits if_splits dest!: folder_ptr_Some)

lemma cp_as_closed:
  assumes "closed G s" "a \<in> G" "cp_as n a dest s = Some (e, s')"
  shows "\<exists>G'. closed G' s'"
  using cp_as_cases [OF assms(3)]
proof (elim disjE exE conjE)
  assume "s' = s"
  with assms show ?thesis by auto
next
  fix d e1
  assume g: "getItem (fst (split_dest dest)) s = Inr (Some d)"
    and c: "copyItem n a d s = Some (Inl e1, s')"
  from copyItem_closed(1) [OF c assms(1,2) getItem_closed [OF assms(1) g]] show ?thesis by auto
next
  fix d newItem
  assume g: "getItem (fst (split_dest dest)) s = Inr (Some d)"
    and c: "copyItem n a d s = Some (Inr newItem, s')"
  from copyItem_closed(1) [OF c assms(1,2) getItem_closed [OF assms(1) g]] show ?thesis by auto
next
  fix d newItem s1 x
  assume g: "getItem (fst (split_dest dest)) s = Inr (Some d)"
    and c: "copyItem n a d s = Some (Inr newItem, s1)" and x: "item s1 newItem = Some x"
    and p: "push_child d newItem (store newItem (x\<lparr>name := snd (split_dest dest)\<rparr>) s1) = (e, s')"
  have dG: "d \<in> G" using getItem_closed [OF assms(1) g] .
  from copyItem_closed(1) [OF c assms(1,2) dG] obtain G' where
    G': "G \<subseteq> G'" "closed G' s1" "newItem \<in> G'" by auto
  have "closed G' (store newItem (x\<lparr>name := snd (split_dest dest)\<rparr>) s1)"
    using closed_item [OF G'(2,3) x] by (intro closed_store [OF G'(2)]) simp
  then have "closed G' (snd (push_child d newItem (store newItem (x\<lparr>name := snd (split_dest dest)\<rparr>) s1)))"
    using dG G'(1,3) by (intro push_child_closed) auto
  with p show ?thesis by auto
qed

lemma cp_closed:
  assumes "closed G s" "cp n source dest s = Some (e, s')"
  shows "\<exists>G'. closed G' s'"
proof (cases "\<exists>a. getItem source s = Inr (Some a)")
  case False
  with assms(2) have "s' = s" by (auto simp: cp_def split: sum.splits option.splits)
  with assms show ?thesis by auto
next
  case True
  then obtain a where g: "getItem source s = Inr (Some a)" by blast
  have a: "a \<in> G" using getItem_closed [OF assms(1) g] .
  from assms(2) g have "s' = s \<or> (\<exists>d. getItem dest s = Inr (Some d) \<and> cp_into n a d s = Some (e, s')) \<or>
      cp_as n a dest s = Some (e, s')"
    by (auto simp: cp_def split: option.splits sum.splits dest!: folder_ptr_Some)
  then show ?thesis
    using assms(1) a
    by (auto intro: cp_into_closed cp_as_closed getItem_closed)
qed

subsection \<open>Defragmentation\<close>

lemma map_upt_shift: "map (\<lambda>j. n + int j) [0..<Suc k] = n # map (\<lambda>j. (n + 1) + int j) [0..<k]"
proof -
  have "[0..<Suc k] = 0 # map Suc [0..<k]" by (simp add: upt_conv_Cons map_Suc_upt del: upt_Suc)
  then show ?thesis by (simp add: comp_def del: upt_Suc)
qed

lemma defrag_loop_result:
  assumes "defrag_loop a data ipos nxt s = (r, s')"
    and "item s a = Some f"
    and "to_int (int (length data)) = int l"
    and "loop_inv (length data) l pos (sectors f)"
    and "0 \<le> nxt"
    and "ipos = int pos"
  shows "\<exists>k m d.
      s' = s\<lparr>disk := d, sectorMap := m,
             heap := (heap s)[a := Some (f\<lparr>sectors := sectors f @ map (\<lambda>j. nxt + int j) [0..<k]\<rparr>)]\<rparr> \<and>
      length m = length (sectorMap s) \<and>
      (k = 0 \<or> nat nxt + k \<le> length m) \<and>
      (k = 0 \<or> nxt + int k \<le> totalSectors s) \<and>
      (\<forall>j < length m. m ! j = (sectorMap s ! j \<or> (nat nxt \<le> j \<and> j < nat nxt + k))) \<and>
      length (disk s) \<le> length d \<and>
      (\<forall>i < length (disk s). \<not> (nat nxt \<le> i \<and> i < nat nxt + k) \<longrightarrow> d ! i = disk s ! i) \<and>
      (\<forall>j < k. nat nxt + j < length d \<and>
          d ! (nat nxt + j) = take SECTOR_SIZE (drop (SECTOR_SIZE * (length (sectors f) + j)) (take l data))) \<and>
      (case r of
         Inr nxt' \<Rightarrow> nxt' = nxt + int k \<and> l = length data \<and>
           length (sectors f) + k = sectors_needed (length data)
       | Inl e \<Rightarrow> e = DiskFull \<or> e = MemoryFault)"
  using assms
proof (induction a data ipos nxt s arbitrary: f pos rule: defrag_loop.induct)
  case (1 a data ipos nxt s)
  note res = "1.prems"(1) and f = "1.prems"(2) and L = "1.prems"(3) and inv = "1.prems"(4)
    and nn = "1.prems"(5) and ip = "1.prems"(6)
  note ar = loop_arith [OF L loop_inv_le [OF inv]]
  have test: "to_size_t ipos < int (length data) \<longleftrightarrow> pos < length data"
    by (simp add: ip ar(1))
  have lt: "a < length (heap s)" using f by (rule item_lt)
  have sf: "s\<lparr>heap := (heap s)[a := Some f]\<rparr> = s"
    using f lt by (simp add: item_def list_update_same_conv)
  show ?case
  proof (cases "pos < length data")
    case False
    with res test have "r = Inr nxt" "s' = s"
      by (simp_all add: defrag_loop.simps [of a data ipos nxt s])
    moreover note loop_inv_done [OF inv False]
    ultimately show ?thesis using sf
      by (intro exI [of _ 0] exI [of _ "sectorMap s"] exI [of _ "disk s"]) auto
  next
    case True
    show ?thesis
    proof (cases "totalSectors s \<le> nxt \<or> nxt < 0 \<or> int (length (sectorMap s)) \<le> nxt")
      case stop: True
      with res True test have "(r = Inl DiskFull \<or> r = Inl MemoryFault) \<and> s' = s"
        by (auto simp: defrag_loop.simps [of a data ipos nxt s] split: if_splits)
      then show ?thesis using sf
        by (intro exI [of _ 0] exI [of _ "sectorMap s"] exI [of _ "disk s"]) auto
    next
      case go: False
      let ?len = "min SECTOR_SIZE (l - pos)"
      let ?f4 = "f\<lparr>sectors := sectors f @ [nxt]\<rparr>"
      let ?s4 = "(store a ?f4 s)\<lparr>sectorMap := (sectorMap s)[nat nxt := True],
                 disk := (grow_disk (nat nxt) (disk s))
                   [nat nxt := take SECTOR_SIZE (drop pos (take l data))]\<rparr>"
      have e1: "to_int (ipos + chunk_len data ipos) = int (pos + ?len)"
        using ar(3) by (simp only: ip)
      have e2: "substr data (to_size_t ipos) (to_size_t (chunk_len data ipos)) =
          take SECTOR_SIZE (drop pos (take l data))"
        using ar(4) by (simp only: ip)
      have gt: "to_size_t ipos < int (length data)" using True test by simp
      have rec: "defrag_loop a data (int (pos + ?len)) (nxt + 1) ?s4 = (r, s')"
        using res gt go f
        by (simp add: defrag_loop.simps [of a data ipos nxt s] e1 e2 del: of_nat_add of_nat_min)
      have f4: "item ?s4 a = Some ?f4" using lt by (simp add: item_def store_def)
      have inv4: "loop_inv (length data) l (pos + ?len) (sectors ?f4)"
        using loop_inv_step [OF inv True] by simp
      have c1: "\<not> totalSectors s \<le> nxt" and c2: "\<not> (nxt < 0 \<or> int (length (sectorMap s)) \<le> nxt)"
        using go by auto
      have nn1: "0 \<le> nxt + 1" using nn by simp
      from "1.IH" [unfolded e1 e2, OF gt c1 c2 f rec f4 L inv4 nn1 refl]
      obtain k m d where
        s': "s' = ?s4\<lparr>disk := d, sectorMap := m,
               heap := (heap ?s4)[a := Some (?f4\<lparr>sectors := sectors ?f4 @ map (\<lambda>j. (nxt + 1) + int j) [0..<k]\<rparr>)]\<rparr>"
        and m: "length m = length (sectorMap ?s4)"
          "k = 0 \<or> nat (nxt + 1) + k \<le> length m"
          "k = 0 \<or> (nxt + 1) + int k \<le> totalSectors ?s4"
          "\<forall>j < length m. m ! j = (sectorMap ?s4 ! j \<or> (nat (nxt + 1) \<le> j \<and> j < nat (nxt + 1) + k))"
        and d: "length (disk ?s4) \<le> length d"
          "\<forall>i < length (disk ?s4). \<not> (nat (nxt + 1) \<le> i \<and> i < nat (nxt + 1) + k) \<longrightarrow> d ! i = disk ?s4 ! i"
          "\<forall>j < k. nat (nxt + 1) + j < length d \<and>
             d ! (nat (nxt + 1) + j) = take SECTOR_SIZE (drop (SECTOR_SIZE * (length (sectors ?f4) + j)) (take l data))"
        and r: "case r of
           Inr nxt' \<Rightarrow> nxt' = (nxt + 1) + int k \<and> l = length data \<and>
             length (sectors ?f4) + k = sectors_needed (length data)
         | Inl e \<Rightarrow> e = DiskFull \<or> e = MemoryFault"
        by blast
      have n1: "nat (nxt + 1) = Suc (nat nxt)" using nn by simp
      have nlt: "nat nxt < length (sectorMap s)" using go nn by linarith
      have len4: "length (disk ?s4) = max (length (disk s)) (Suc (nat nxt))"
        by (simp add: store_def grow_disk_length)
      have 1: "s' = s\<lparr>disk := d, sectorMap := m,
          heap := (heap s)[a := Some (f\<lparr>sectors := sectors f @ map (\<lambda>j. nxt + int j) [0..<Suc k]\<rparr>)]\<rparr>"
        unfolding map_upt_shift using s' by (simp add: store_def)
      have 2: "length m = length (sectorMap s)" using m(1) by (simp add: store_def)
      have 3: "nat nxt + Suc k \<le> length m"
        using m(2) 2 nlt n1 by auto
      have 9: "nxt + int (Suc k) \<le> totalSectors s"
        using m(3) go by (auto simp: store_def)
      have 4: "\<forall>j < length m. m ! j = (sectorMap s ! j \<or> (nat nxt \<le> j \<and> j < nat nxt + Suc k))"
      proof (intro allI impI)
        fix j assume j: "j < length m"
        with m(4) have "m ! j = (sectorMap ?s4 ! j \<or> (nat (nxt + 1) \<le> j \<and> j < nat (nxt + 1) + k))"
          by blast
        moreover have "sectorMap ?s4 ! j = (sectorMap s ! j \<or> j = nat nxt)"
          using j 2 by (cases "j = nat nxt") (simp_all add: store_def)
        ultimately show "m ! j = (sectorMap s ! j \<or> (nat nxt \<le> j \<and> j < nat nxt + Suc k))"
          using n1 by auto
      qed
      have 5: "length (disk s) \<le> length d" using d(1) len4 by simp
      have 6: "\<forall>i < length (disk s). \<not> (nat nxt \<le> i \<and> i < nat nxt + Suc k) \<longrightarrow> d ! i = disk s ! i"
      proof (intro allI impI)
        fix i assume i: "i < length (disk s)" "\<not> (nat nxt \<le> i \<and> i < nat nxt + Suc k)"
        then have ne: "i \<noteq> nat nxt" and out: "\<not> (nat (nxt + 1) \<le> i \<and> i < nat (nxt + 1) + k)"
          using n1 by auto
        have "i < length (disk ?s4)" using i(1) len4 by simp
        with d(2) out have "d ! i = disk ?s4 ! i" by blast
        also have "\<dots> = disk s ! i" using ne i(1) by (simp add: store_def grow_disk_nth)
        finally show "d ! i = disk s ! i" .
      qed
      have 7: "\<forall>j < Suc k. nat nxt + j < length d \<and>
          d ! (nat nxt + j) = take SECTOR_SIZE (drop (SECTOR_SIZE * (length (sectors f) + j)) (take l data))"
      proof (intro allI impI)
        fix j assume j: "j < Suc k"
        show "nat nxt + j < length d \<and>
          d ! (nat nxt + j) = take SECTOR_SIZE (drop (SECTOR_SIZE * (length (sectors f) + j)) (take l data))"
        proof (cases j)
          case 0
          have in4: "nat nxt < length (disk ?s4)" using len4 by simp
          have "\<not> (nat (nxt + 1) \<le> nat nxt \<and> nat nxt < nat (nxt + 1) + k)" using n1 by simp
          with d(2) in4 have "d ! nat nxt = disk ?s4 ! nat nxt" by blast
          also have "\<dots> = take SECTOR_SIZE (drop pos (take l data))"
            by (simp add: store_def grow_disk_length)
          also have "\<dots> = take SECTOR_SIZE (drop (SECTOR_SIZE * length (sectors f)) (take l data))"
            by (rule loop_inv_slot [OF inv])
          finally show ?thesis using 0 in4 d(1) by simp
        next
          case (Suc j')
          with j have "j' < k" by simp
          with d(3) have "nat (nxt + 1) + j' < length d \<and>
             d ! (nat (nxt + 1) + j') = take SECTOR_SIZE (drop (SECTOR_SIZE * (length (sectors ?f4) + j')) (take l data))"
            by blast
          then show ?thesis using Suc n1 by simp
        qed
      qed
      have 8: "case r of
           Inr nxt' \<Rightarrow> nxt' = nxt + int (Suc k) \<and> l = length data \<and>
             length (sectors f) + Suc k = sectors_needed (length data)
         | Inl e \<Rightarrow> e = DiskFull \<or> e = MemoryFault"
        using r by (auto split: sum.splits)
      from 1 2 3 9 4 5 6 7 8 show ?thesis
        by (intro exI [of _ "Suc k"] exI [of _ m] exI [of _ d]) (simp del: upt_Suc)
    qed
  qed
qed


lemma defrag_loop_errors:
  "defrag_loop a data pos nxt s = (Inl e, s') \<Longrightarrow> e = DiskFull \<or> e = MemoryFault"
proof (induction a data pos nxt s rule: defrag_loop.induct)
  case (1 a data pos nxt s)
  show ?case
  proof (cases "to_size_t pos < int (length data) \<and> \<not> totalSectors s \<le> nxt \<and>
      \<not> (nxt < 0 \<or> int (length (sectorMap s)) \<le> nxt) \<and> item s a \<noteq> None")
    case False
    with "1.prems" show ?thesis
      by (auto simp: defrag_loop.simps [of a data pos nxt s] split: if_splits option.splits)
  next
    case True
    then obtain f where f: "item s a = Some f" by auto
    from "1.prems" True f "1.IH" [OF _ _ _ f] show ?thesis
      by (simp add: defrag_loop.simps [of a data pos nxt s])
  qed
qed

lemma collectAllFiles_closed:
  "collectAllFiles n s folder files = Some (Inr files') \<Longrightarrow> closed G s \<Longrightarrow> folder \<in> G \<Longrightarrow>
     set files \<subseteq> G \<Longrightarrow> set files' \<subseteq> G"
  "collectAllFiles_children n s cs files = Some (Inr files') \<Longrightarrow> closed G s \<Longrightarrow> set cs \<subseteq> G \<Longrightarrow>
     set files \<subseteq> G \<Longrightarrow> set files' \<subseteq> G"
proof (induction n s folder files and n s cs files arbitrary: files' and files'
    rule: collectAllFiles_collectAllFiles_children.induct)
  case (1 s folder files)
  then show ?case by simp
next
  case (2 n s folder files)
  from "2.prems"(1) obtain f where f: "item s folder = Some f"
    and rec: "collectAllFiles_children n s (children f) files = Some (Inr files')"
    by (auto split: option.splits)
  from "2.IH" [OF f rec "2.prems"(2) closed_children [OF "2.prems"(2,3) f] "2.prems"(4)]
  show ?case .
next
  case (3 n s files)
  then show ?case by simp
next
  case (4 n s child rest files)
  from "4.prems"(1) obtain c where c: "item s child = Some c"
    by (auto split: option.splits)
  have chG: "child \<in> G" and restG: "set rest \<subseteq> G" using "4.prems"(3) by simp_all
  show ?case
  proof (cases "isFolder c")
    case True
    with "4.prems"(1) c obtain files1 where
      r1: "collectAllFiles n s child files = Some (Inr files1)"
      and r2: "collectAllFiles_children n s rest files1 = Some (Inr files')"
      by (auto split: option.splits sum.splits)
    from "4.IH"(1) [OF c True r1 "4.prems"(2) chG "4.prems"(4)] have "set files1 \<subseteq> G" .
    from "4.IH"(2) [OF c True r1 refl r2 "4.prems"(2) restG this] show ?thesis .
  next
    case False
    with "4.prems"(1) c have r: "collectAllFiles_children n s rest (files @ [child]) = Some (Inr files')"
      by simp
    have "set (files @ [child]) \<subseteq> G" using "4.prems"(4) chG by simp
    from "4.IH"(3) [OF c False r "4.prems"(2) restG this] show ?thesis .
  qed
qed

lemma defrag_files_closed:
  "defrag_files files nxt s = (Inr n', s') \<Longrightarrow> 0 \<le> nxt \<Longrightarrow> closed G s \<Longrightarrow> set files \<subseteq> G \<Longrightarrow>
     closed G s'"
proof (induction files arbitrary: nxt s)
  case Nil
  then show ?case by simp
next
  case (Cons a files)
  from Cons.prems(1) obtain f where f: "item s a = Some f"
    by (cases "item s a") auto
  have aG: "a \<in> G" and rest: "set files \<subseteq> G" using Cons.prems(4) by simp_all
  show ?case
  proof (cases "isFolder f")
    case True
    with Cons.prems f have "defrag_files files nxt s = (Inr n', s')" by simp
    from Cons.IH [OF this Cons.prems(2,3) rest] show ?thesis .
  next
    case False
    let ?f0 = "f\<lparr>sectors := []\<rparr>"
    let ?s0 = "store a ?f0 s"
    obtain r1 s1 where lp: "defrag_loop a (content f) 0 nxt ?s0 = (r1, s1)"
      by (cases "defrag_loop a (content f) 0 nxt ?s0")
    with Cons.prems(1) f False obtain nxt1 where r1: "r1 = Inr nxt1"
      and rec: "defrag_files files nxt1 s1 = (Inr n', s')"
      by (cases r1) auto
    have lt: "a < length (heap s)" using f by (rule item_lt)
    have f0: "item ?s0 a = Some ?f0" using lt by (simp add: item_def store_def)
    note nk = closed_item [OF Cons.prems(3) aG f]
    then have fit: "fits_int (length (content f))" using False by (simp add: node_ok_def item_ok_def)
    have L: "to_int (int (length (content f))) = int (length (content f))"
      using fit by (rule fits_int_to_int)
    have inv0: "loop_inv (length (content f)) (length (content f)) 0 (sectors ?f0)"
      using loop_inv_init [OF L] by simp
    have z: "(0::int) = int 0" by simp
    from defrag_loop_result [OF lp f0 L inv0 Cons.prems(2) z] r1
    obtain k m d where s1: "s1 = ?s0\<lparr>disk := d, sectorMap := m,
             heap := (heap ?s0)[a := Some (?f0\<lparr>sectors := sectors ?f0 @ map (\<lambda>j. nxt + int j) [0..<k]\<rparr>)]\<rparr>"
      and n1: "nxt1 = nxt + int k"
      and len: "length (sectors ?f0) + k = sectors_needed (length (content f))"
      by auto
    let ?f1 = "f\<lparr>sectors := map (\<lambda>j. nxt + int j) [0..<k]\<rparr>"
    have "node_ok G ?f1"
      using nk len False fit by (simp add: node_ok_def item_ok_def)
    then have "closed G (store a ?f1 s)" by (intro closed_store [OF Cons.prems(3)])
    moreover have "s1 = (store a ?f1 s)\<lparr>disk := d, sectorMap := m\<rparr>"
      by (simp add: s1 store_def)
    ultimately have ok1: "closed G s1" by simp
    have "0 \<le> nxt1" using n1 Cons.prems(2) by simp
    from Cons.IH [OF rec this ok1 rest] show ?thesis .
  qed
qed

lemma defrag_files_errors:
  "defrag_files files nxt s = (Inl e, s') \<Longrightarrow> e = DiskFull \<or> e = MemoryFault"
proof (induction files arbitrary: nxt s)
  case Nil
  then show ?case by simp
next
  case (Cons a files)
  show ?case
  proof (cases "item s a")
    case None
    with Cons.prems show ?thesis by simp
  next
    case (Some f)
    show ?thesis
    proof (cases "isFolder f")
      case True
      with Cons Some show ?thesis by simp
    next
      case False
      let ?s0 = "store a (f\<lparr>sectors := []\<rparr>) s"
      obtain r1 s1 where lp: "defrag_loop a (content f) 0 nxt ?s0 = (r1, s1)"
        by (cases "defrag_loop a (content f) 0 nxt ?s0")
      show ?thesis
      proof (cases r1)
        case (Inl x)
        with Cons.prems(1) Some False lp have "x = e" by simp
        with defrag_loop_errors [of a "content f" 0 nxt ?s0 x s1] lp Inl show ?thesis by simp
      next
        case (Inr nxt1)
        with Cons.prems(1) Some False lp have rec: "defrag_files files nxt1 s1 = (Inl e, s')" by simp
        from Cons.IH [OF rec] show ?thesis .
      qed
    qed
  qed
qed

lemma defrag_closed:
  assumes "closed G s" "defrag n s = Some (e, s')" "e \<noteq> Some DiskFull" "e \<noteq> Some MemoryFault"
  shows "closed G s'"
proof -
  from assms(2) obtain rc where c: "collectAllFiles n s (root s) [] = Some rc"
    by (auto simp: defrag_def split: option.splits)
  show ?thesis
  proof (cases rc)
    case (Inl x)
    with assms(2) c have "s' = s" by (simp add: defrag_def)
    with assms(1) show ?thesis by simp
  next
    case (Inr files)
    let ?s0 = "s\<lparr>sectorMap := replicate (length (sectorMap s)) False\<rparr>"
    have sub: "set files \<subseteq> G"
      using collectAllFiles_closed(1) [of n s "root s" "[]" files G] c Inr assms(1)
      by (simp add: closed_root)
    obtain r1 s1 where d: "defrag_files files 0 ?s0 = (r1, s1)"
      by (cases "defrag_files files 0 ?s0")
    show ?thesis
    proof (cases r1)
      case (Inl x)
      with assms(2) c Inr d have "e = Some x" by (simp add: defrag_def)
      with defrag_files_errors [of files 0 ?s0 x s1] d Inl assms(3,4) show ?thesis by auto
    next
      case k: (Inr k)
      with assms(2) c Inr d have "s' = s1" by (simp add: defrag_def)
      with defrag_files_closed [of files 0 ?s0 k s1 G] d k assms(1) sub show ?thesis by simp
    qed
  qed
qed

subsection \<open>Reachable states\<close>

lemma run_closed:
  assumes "closed G s" "run n c s = Some (e, s')" "admissible c e"
  shows "\<exists>G'. closed G' s'"
proof (cases c)
  case (Cd path)
  with assms cd_closed [of G s path] show ?thesis by auto
next
  case (Mkdir path)
  with assms mkdir_closed [of G s path] show ?thesis by auto
next
  case (Touch nm)
  with assms touch_closed [of G s nm e s'] show ?thesis by auto
next
  case (Rm nm recursive)
  with assms rm_closed [of G s n nm recursive e s'] show ?thesis by auto
next
  case (Cp a b)
  with assms cp_closed [of G s n a b e s'] show ?thesis by auto
next
  case (Mv a b)
  with assms mv_closed [of G s n a b e s'] show ?thesis by auto
next
  case (Put realFile fl fsPath)
  with assms put_closed [of G s realFile fl fsPath e s'] show ?thesis by auto
next
  case Defrag
  with assms defrag_closed [of G s n e s'] show ?thesis by auto
qed

lemma reachable_closed: "reachable_ok s \<Longrightarrow> \<exists>G. closed G s"
proof (induction rule: reachable_ok.induct)
  case (fresh capacity)
  show ?case using closed_new by blast
next
  case (step s n c e s')
  then show ?case using run_closed by blast
qed

lemma live_closed: "live s a \<Longrightarrow> closed G s \<Longrightarrow> a \<in> G"
proof (induction rule: live.induct)
  case root
  then show ?case by (rule closed_root)
next
  case (child p x c)
  then show ?case using closed_children [of G s p x] by auto
qed

text \<open>
  Claim C3, as amended. Take any state that a fresh filesystem reaches by operations that
  return, where no \<^verbatim>\<open>put\<close> and no \<^verbatim>\<open>defrag\<close> has reported \<open>DiskFull\<close>, none has run into
  undefined behaviour, and every content stored by \<^verbatim>\<open>put\<close> is shorter than \<open>2 ^ 31\<close> bytes;
  operations that report any other error are included, and so is a \<^verbatim>\<open>cp\<close> that reports
  \<open>DiskFull\<close>. In such a state every live node, that is every node that the \<^verbatim>\<open>children\<close> lists
  reach from the root, satisfies: a file lists exactly \<open>ceil (length content / SECTOR_SIZE)\<close>
  sectors, none when its content is empty, and a directory has empty content and no
  sectors. (After a \<^verbatim>\<open>put\<close> that reports \<open>DiskFull\<close> the claim as stated fails: the
  counterexample below is a \<^verbatim>\<open>put\<close> that leaves a live file of 128 bytes with one sector.)
\<close>

theorem sector_count_matches_content:
  assumes "reachable_ok s" and "live s a" and "item s a = Some x"
  shows "(\<not> isFolder x \<longrightarrow> length (sectors x) = sectors_needed (length (content x)) \<and>
            (content x = [] \<longrightarrow> sectors x = [])) \<and>
         (isFolder x \<longrightarrow> content x = [] \<and> sectors x = [])"
proof -
  from reachable_closed [OF assms(1)] obtain G where G: "closed G s" by blast
  from closed_item_ok [OF G live_closed [OF assms(2) G] assms(3)] have "item_ok x" .
  then show ?thesis by (auto simp: item_ok_def sectors_needed_def SECTOR_SIZE_def split: if_splits)
qed

theorem sector_count_matches_content_witness:
  "reachable_ok fs_cp_failed \<and> live fs_cp_failed 1 \<and>
   run 0 (Put ''a'' (Some (replicate 128 CHR ''x'')) ''.'') (FileSystem_new 3) = Some (None, fs_put_a) \<and>
   run 3 (Cp ''a'' ''b'') fs_put_a = Some (Some DiskFull, fs_cp_failed) \<and>
   (\<exists>x. item fs_cp_failed 1 = Some x \<and> \<not> isFolder x \<and> sectors x = [0, 1] \<and> length (content x) = 128 \<and>
      length (sectors x) = sectors_needed (length (content x)))"
proof -
  have run1: "run 0 (Put ''a'' (Some (replicate 128 CHR ''x'')) ''.'') (FileSystem_new 3) =
      Some (None, fs_put_a)"
    by code_simp
  have run2: "run 3 (Cp ''a'' ''b'') fs_put_a = Some (Some DiskFull, fs_cp_failed)"
    by code_simp
  have ad1: "admissible (Put ''a'' (Some (replicate 128 CHR ''x'')) ''.'') None" by simp
  have ad2: "admissible (Cp ''a'' ''b'') (Some DiskFull)" by simp
  have "reachable_ok (FileSystem_new 3)" by (rule reachable_ok.fresh) simp
  from reachable_ok.step [OF this run1 ad1] have "reachable_ok fs_put_a" .
  from reachable_ok.step [OF this run2 ad2] have r: "reachable_ok fs_cp_failed" .
  have "map_option children (item fs_cp_failed (root fs_cp_failed)) = Some [1]" by code_simp
  then obtain y where "item fs_cp_failed (root fs_cp_failed) = Some y" "1 \<in> set (children y)"
    by auto
  from live.child [OF live.root this] have l: "live fs_cp_failed 1" .
  have "map_option (\<lambda>x. (isFolder x, sectors x, length (content x))) (item fs_cp_failed 1) =
      Some (False, [0, 1], 128)"
    by code_simp
  then obtain x where x: "item fs_cp_failed 1 = Some x" "\<not> isFolder x" "sectors x = [0, 1]"
    "length (content x) = 128"
    by auto
  from sector_count_matches_content [OF r l x(1)] x r l run1 run2 show ?thesis by blast
qed

theorem sector_count_counterexample:
  "fst (put ''a'' (Some (replicate 128 CHR ''x'')) ''.'' (FileSystem_new 1)) = Some DiskFull \<and>
   getItem ''/a'' (snd (put ''a'' (Some (replicate 128 CHR ''x'')) ''.'' (FileSystem_new 1))) =
     Inr (Some 1) \<and>
   map_option (\<lambda>x. (isFolder x, length (content x), sectors x, sectors_needed (length (content x))))
     (item (snd (put ''a'' (Some (replicate 128 CHR ''x'')) ''.'' (FileSystem_new 1))) 1) =
     Some (False, 128, [0], 2)"
  by code_simp

end
